theory Spec2Isabelle
  imports Main "HOL-Library.Word"
begin

section \<open>Data model (kvstore.h)\<close>

text \<open>
  \<^verbatim>\<open>size_t\<close> is taken as 64 bits wide (LP64) and \<^verbatim>\<open>uint32_t\<close>, \<^verbatim>\<open>uint64_t\<close> as
  words, so every increment and cast wraps as in the source. A \<^verbatim>\<open>std::string\<close> is a
  list of bytes (\<open>string\<close>). The reading of \<^verbatim>\<open>steady_clock::now()\<close> is an argument
  of each operation that reads the clock.
\<close>

type_synonym size_t = "64 word"
type_synonym uint32_t = "32 word"
type_synonym uint64_t = "64 word"
type_synonym time_point = nat

text \<open>
  \<^verbatim>\<open>struct CacheEntry\<close>: the field \<^verbatim>\<open>value\<close> is called \<open>value_str\<close> here
  (\<open>value\<close> is a command name of Isabelle).
\<close>

record CacheEntry =
  value_str :: string
  last_accessed :: time_point
  access_count :: size_t

text \<open>The constructor \<^verbatim>\<open>CacheEntry(val)\<close>: the clock is read, the counter starts at 1.\<close>

definition CacheEntry_new :: "string \<Rightarrow> time_point \<Rightarrow> CacheEntry" where
  "CacheEntry_new val now = \<lparr>value_str = val, last_accessed = now, access_count = 1\<rparr>"

text \<open>
  \<^verbatim>\<open>struct Node\<close> and \<^verbatim>\<open>NodePtr\<close>. A node object lives in a store (\<open>heap\<close>) under
  its address; \<^verbatim>\<open>std::make_shared<Node>\<close> returns an address that no node of the
  engine has yet (\<open>next_ptr\<close>, counted upwards).

  The doubly linked recency list, that is the sentinels \<^verbatim>\<open>head\<close> and \<^verbatim>\<open>tail\<close>
  with the \<^verbatim>\<open>prev\<close>/\<^verbatim>\<open>next\<close> links of the nodes between them, is kept as the
  sequence \<open>order\<close> of the node addresses met from \<^verbatim>\<open>head->next\<close> up to
  \<^verbatim>\<open>tail->prev\<close>; the sentinels themselves are not in it.
\<close>

type_synonym NodePtr = nat

record Node =
  key :: string
  entry :: CacheEntry

record LRUCache =
  heap :: "NodePtr \<Rightarrow> Node"
  next_ptr :: NodePtr
  cache_map :: "string \<rightharpoonup> NodePtr"
  order :: "NodePtr list"
  capacity :: size_t
  current_size :: size_t

datatype error = invalid_argument | runtime_error | indeterminate_value | invalidated_iterator

section \<open>The engine (lru\_cache.cpp)\<close>

text \<open>\<^verbatim>\<open>LRUCache::LRUCache(size_t cap)\<close>: capacity 0 throws.\<close>

definition LRUCache_new :: "size_t \<Rightarrow> error + LRUCache" where
  "LRUCache_new cap =
     (if cap = 0 then Inl invalid_argument
      else Inr \<lparr>heap = (\<lambda>_. \<lparr>key = [], entry = CacheEntry_new [] 0\<rparr>),
                next_ptr = 0,
                cache_map = Map.empty,
                order = [],
                capacity = cap,
                current_size = 0\<rparr>)"

text \<open>\<^verbatim>\<open>move_to_front(node)\<close>: unlink the node, link it in after \<^verbatim>\<open>head\<close>.\<close>

definition move_to_front :: "NodePtr \<Rightarrow> LRUCache \<Rightarrow> LRUCache" where
  "move_to_front node c = c\<lparr>order := node # remove1 node (order c)\<rparr>"

text \<open>\<^verbatim>\<open>remove_node(node)\<close>: unlink the node.\<close>

definition remove_node :: "NodePtr \<Rightarrow> LRUCache \<Rightarrow> LRUCache" where
  "remove_node node c = c\<lparr>order := remove1 node (order c)\<rparr>"

text \<open>
  \<^verbatim>\<open>remove_tail()\<close>: \<^verbatim>\<open>tail->prev\<close> is the last node of the list, or \<^verbatim>\<open>head\<close>
  when the list is empty, and then \<^verbatim>\<open>nullptr\<close> is returned.
\<close>

definition remove_tail :: "LRUCache \<Rightarrow> NodePtr option \<times> LRUCache" where
  "remove_tail c =
     (case order c of
        [] \<Rightarrow> (None, c)
      | _ # _ \<Rightarrow> (Some (last (order c)), remove_node (last (order c)) c))"

text \<open>
  \<^verbatim>\<open>bool get(const std::string& key, std::string& value)\<close>: the out-parameter
  \<^verbatim>\<open>value\<close> is passed in and returned, since a miss leaves it as it was.
\<close>

definition LRUCache_get ::
  "string \<Rightarrow> string \<Rightarrow> time_point \<Rightarrow> LRUCache \<Rightarrow> bool \<times> string \<times> LRUCache" where
  "LRUCache_get k val now c =
     (case cache_map c k of
        None \<Rightarrow> (False, val, c)
      | Some p \<Rightarrow>
          let e = entry (heap c p);
              e' = e\<lparr>last_accessed := now, access_count := access_count e + 1\<rparr>;
              c1 = c\<lparr>heap := (heap c)(p := (heap c p)\<lparr>entry := e'\<rparr>)\<rparr>;
              c2 = move_to_front p c1
          in (True, value_str (entry (heap c2 p)), c2))"

text \<open>
  \<^verbatim>\<open>get\<close> holds the mutex twice: the shared lock from the lookup up to the update
  of the access data (\<open>get_lookup\<close>), then, after \<^verbatim>\<open>lock.unlock()\<close>, the exclusive
  lock for the splice and the copy of the value (\<open>get_promote\<close>). Between the two
  another thread can run a whole operation. What the first phase hands to the second
  is the iterator \<^verbatim>\<open>it\<close>, here the element of the index it points to: the key and
  the node handle. The second phase does no other lookup; \<^verbatim>\<open>it->second\<close> of an
  iterator whose element has been erased since is the outcome
  \<open>Inl invalidated_iterator\<close>. (Rehashing is not modelled: the iterator stays usable
  as long as its element is in the index.)
\<close>

type_synonym iterator = "string \<times> NodePtr"

definition get_lookup :: "string \<Rightarrow> time_point \<Rightarrow> LRUCache \<Rightarrow> iterator option \<times> LRUCache" where
  "get_lookup k now c =
     (case cache_map c k of
        None \<Rightarrow> (None, c)
      | Some p \<Rightarrow>
          let e = entry (heap c p);
              e' = e\<lparr>last_accessed := now, access_count := access_count e + 1\<rparr>
          in (Some (k, p), c\<lparr>heap := (heap c)(p := (heap c p)\<lparr>entry := e'\<rparr>)\<rparr>))"

definition get_promote :: "iterator \<Rightarrow> LRUCache \<Rightarrow> error + bool \<times> string \<times> LRUCache" where
  "get_promote it c =
     (if cache_map c (fst it) = Some (snd it) then
        let c2 = move_to_front (snd it) c
        in Inr (True, value_str (entry (heap c2 (snd it))), c2)
      else Inl invalidated_iterator)"

text \<open>\<^verbatim>\<open>void put(const std::string& key, const std::string& value)\<close>.\<close>

definition LRUCache_put :: "string \<Rightarrow> string \<Rightarrow> time_point \<Rightarrow> LRUCache \<Rightarrow> LRUCache" where
  "LRUCache_put k val now c =
     (case cache_map c k of
        Some p \<Rightarrow>
          let e = entry (heap c p);
              e' = e\<lparr>value_str := val, last_accessed := now,
                     access_count := access_count e + 1\<rparr>
          in move_to_front p (c\<lparr>heap := (heap c)(p := (heap c p)\<lparr>entry := e'\<rparr>)\<rparr>)
      | None \<Rightarrow>
          let node = next_ptr c;
              c1 = c\<lparr>heap := (heap c)(node := \<lparr>key = k, entry = CacheEntry_new val now\<rparr>),
                     next_ptr := Suc node\<rparr>;
              c2 = (if current_size c1 \<ge> capacity c1 then
                      (case remove_tail c1 of
                         (Some tail_node, c') \<Rightarrow>
                           c'\<lparr>cache_map := (cache_map c')(key (heap c' tail_node) := None),
                              current_size := current_size c' - 1\<rparr>
                       | (None, c') \<Rightarrow> c')
                    else c1)
          in c2\<lparr>order := node # order c2,
                cache_map := (cache_map c2)(k \<mapsto> node),
                current_size := current_size c2 + 1\<rparr>)"

text \<open>\<^verbatim>\<open>bool remove(const std::string& key)\<close>.\<close>

definition LRUCache_remove :: "string \<Rightarrow> LRUCache \<Rightarrow> bool \<times> LRUCache" where
  "LRUCache_remove k c =
     (case cache_map c k of
        None \<Rightarrow> (False, c)
      | Some p \<Rightarrow>
          let c1 = remove_node p c
          in (True, c1\<lparr>cache_map := (cache_map c1)(k := None),
                       current_size := current_size c1 - 1\<rparr>))"

text \<open>\<^verbatim>\<open>void clear()\<close>.\<close>

definition LRUCache_clear :: "LRUCache \<Rightarrow> LRUCache" where
  "LRUCache_clear c = c\<lparr>cache_map := Map.empty, order := [], current_size := 0\<rparr>"

definition LRUCache_size :: "LRUCache \<Rightarrow> size_t" where
  "LRUCache_size c = current_size c"

definition LRUCache_empty :: "LRUCache \<Rightarrow> bool" where
  "LRUCache_empty c = (current_size c = 0)"

section \<open>The snapshot codec (lru\_cache.cpp)\<close>

text \<open>
  A \<^verbatim>\<open>uint32_t\<close> is written and read through \<^verbatim>\<open>reinterpret_cast<char*>\<close>, in the
  byte order of the host; the format table of the specification fixes it as
  little-endian, which is what \<open>enc32\<close> and \<open>dec32\<close> are.
\<close>

definition enc32 :: "uint32_t \<Rightarrow> string" where
  "enc32 w = map (\<lambda>i. char_of (unat w div 256 ^ i)) [0, 1, 2, 3]"

definition dec32 :: "string \<Rightarrow> uint32_t" where
  "dec32 bs = of_nat (foldr (\<lambda>b n. of_char b + 256 * n) bs 0)"

text \<open>
  The input file stream: the bytes not yet read and whether the stream is still good.
  \<^verbatim>\<open>file.read(dst, n)\<close> on a good stream with at least \<open>n\<close> bytes left stores them;
  with fewer bytes left it stores those there are in front of the old content of the
  buffer and sets the fail bit; on a failed stream it does nothing.
\<close>

record ifstream =
  rest :: string
  good :: bool

definition istream_read :: "nat \<Rightarrow> string \<Rightarrow> ifstream \<Rightarrow> string \<times> ifstream" where
  "istream_read n dst f =
     (if \<not> good f then (dst, f)
      else if n \<le> length (rest f) then (take n (rest f), f\<lparr>rest := drop n (rest f)\<rparr>)
      else (rest f @ drop (length (rest f)) dst, f\<lparr>rest := [], good := False\<rparr>))"

text \<open>
  A read into a \<^verbatim>\<open>uint32_t\<close> local. Each of these locals is declared without an
  initialiser, so when the read does not deliver all four bytes its value is (partly)
  indeterminate: the result is \<open>None\<close> then.
\<close>

definition read_u32 :: "ifstream \<Rightarrow> uint32_t option \<times> ifstream" where
  "read_u32 f =
     (if good f \<and> 4 \<le> length (rest f)
      then (Some (dec32 (take 4 (rest f))), f\<lparr>rest := drop 4 (rest f)\<rparr>)
      else (None, snd (istream_read 4 [] f)))"

text \<open>
  The body of the loop of \<^verbatim>\<open>save_snapshot\<close> for one node: the sizes are cast to
  \<^verbatim>\<open>uint32_t\<close>, and as many bytes as the cast size says are written.
\<close>

definition write_entry :: "string \<Rightarrow> string \<Rightarrow> string" where
  "write_entry k val =
     (let key_size = (of_nat (length k) :: uint32_t);
          value_size = (of_nat (length val) :: uint32_t)
      in enc32 key_size @ take (unat key_size) k @ enc32 value_size @ take (unat value_size) val)"

text \<open>The walk \<^verbatim>\<open>current = head->next; while (current != tail)\<close> over the list.\<close>

primrec write_entries :: "(NodePtr \<Rightarrow> Node) \<Rightarrow> NodePtr list \<Rightarrow> string" where
  "write_entries h [] = []"
| "write_entries h (current # nxt) =
     write_entry (key (h current)) (value_str (entry (h current))) @ write_entries h nxt"

text \<open>
  \<^verbatim>\<open>save_snapshot(filename)\<close>: the first argument says whether the output file could
  be opened; the result is the content of the file. Writes are not checked by the
  source and are taken to succeed.
\<close>

definition save_snapshot :: "bool \<Rightarrow> LRUCache \<Rightarrow> error + string" where
  "save_snapshot opened c =
     (if \<not> opened then Inl runtime_error
      else let version = (1 :: uint32_t);
               count = (ucast (current_size c) :: uint32_t)
           in Inr (enc32 version @ enc32 count @ write_entries (heap c) (order c)))"

text \<open>
  The insertion at the end of the loop body of \<^verbatim>\<open>load_snapshot\<close>: a new entry and
  node, linked in after \<^verbatim>\<open>head\<close>, \<^verbatim>\<open>cache_map[key] = node\<close>, \<^verbatim>\<open>current_size++\<close>.
\<close>

definition insert_loaded :: "string \<Rightarrow> string \<Rightarrow> time_point \<Rightarrow> LRUCache \<Rightarrow> LRUCache" where
  "insert_loaded k val now c =
     (let node = next_ptr c
      in c\<lparr>heap := (heap c)(node := \<lparr>key = k, entry = CacheEntry_new val now\<rparr>),
           next_ptr := Suc node,
           order := node # order c,
           cache_map := (cache_map c)(k \<mapsto> node),
           current_size := current_size c + 1\<rparr>)"

text \<open>
  The loop \<^verbatim>\<open>for (uint32_t i = 0; i < count && i < capacity; ++i)\<close>. The two strings
  are created filled with NUL and read into. Using a size that the read left
  indeterminate is the outcome \<open>Inl indeterminate_value\<close>; the loop has no other exit
  than its condition, after which \<^verbatim>\<open>true\<close> is returned. The clock reading at round
  \<open>i\<close> is \<open>clk i\<close>.
\<close>

function load_entries ::
  "uint32_t \<Rightarrow> uint32_t \<Rightarrow> (nat \<Rightarrow> time_point) \<Rightarrow> ifstream \<Rightarrow> LRUCache \<Rightarrow> error + bool \<times> LRUCache"
  where
  "load_entries i count clk f c =
     (if i < count \<and> ucast i < capacity c then
        (case read_u32 f of
           (None, _) \<Rightarrow> Inl indeterminate_value
         | (Some key_size, f1) \<Rightarrow>
             (case istream_read (unat key_size) (replicate (unat key_size) (CHR 0x00)) f1 of
                (k, f2) \<Rightarrow>
                  (case read_u32 f2 of
                     (None, _) \<Rightarrow> Inl indeterminate_value
                   | (Some value_size, f3) \<Rightarrow>
                       (case istream_read (unat value_size)
                               (replicate (unat value_size) (CHR 0x00)) f3 of
                          (val, f4) \<Rightarrow>
                            load_entries (i + 1) count clk f4
                              (insert_loaded k val (clk (unat i)) c)))))
      else Inr (True, c))"
  by pat_completeness auto
termination
proof (relation "measure (\<lambda>(i, count, clk, f, c). unat count - unat i)")
  show "wf (measure (\<lambda>(i, count, clk, f, c). unat count - unat i))" by simp
next
  fix i count :: uint32_t
  fix clk :: "nat \<Rightarrow> time_point" and f :: ifstream and c :: LRUCache
  fix x2 f4 k val
  assume "i < count \<and> ucast i < capacity c"
  then have lt: "unat i < unat count" by (simp add: word_less_nat_alt)
  have "unat count < 2 ^ LENGTH(32)" by (rule unsigned_less)
  with lt have "unat i + unat (1 :: uint32_t) < 2 ^ LENGTH(32)" by simp
  then have "unat (i + 1) = unat i + unat (1 :: uint32_t)"
    by (simp only: unat_add_lem [THEN iffD1])
  then have "unat count - unat (i + 1) < unat count - unat i" using lt by simp
  then show "((i + 1, count, clk, f4, insert_loaded k val (clk (unat i)) c), (i, count, clk, f, c))
             \<in> measure (\<lambda>(i, count, clk, f, c). unat count - unat i)"
    by simp
qed

declare load_entries.simps [simp del]

text \<open>
  \<^verbatim>\<open>load_snapshot(filename)\<close>: the first argument is the content of the file, or
  \<open>None\<close> when it cannot be opened.
\<close>

definition load_snapshot ::
  "string option \<Rightarrow> (nat \<Rightarrow> time_point) \<Rightarrow> LRUCache \<Rightarrow> error + bool \<times> LRUCache" where
  "load_snapshot file clk c =
     (case file of
        None \<Rightarrow> Inr (False, c)
      | Some bytes \<Rightarrow>
          let c0 = c\<lparr>cache_map := Map.empty, order := [], current_size := 0\<rparr>;
              (version, f1) = read_u32 \<lparr>rest = bytes, good = True\<rparr>;
              (count, f2) = read_u32 f1
          in (case version of
                None \<Rightarrow> Inl indeterminate_value
              | Some v \<Rightarrow>
                  if v \<noteq> 1 then Inr (False, c0)
                  else (case count of
                          None \<Rightarrow> Inl indeterminate_value
                        | Some n \<Rightarrow> load_entries 0 n clk f2 c0)))"

section \<open>The facade and its metrics (kvstore.h and the store's source file)\<close>

record PerformanceMetrics =
  total_operations :: uint64_t
  cache_hits :: uint64_t
  cache_misses :: uint64_t
  evictions :: uint64_t
  start_time :: time_point

definition PerformanceMetrics_new :: "time_point \<Rightarrow> PerformanceMetrics" where
  "PerformanceMetrics_new now =
     \<lparr>total_operations = 0, cache_hits = 0, cache_misses = 0, evictions = 0, start_time = now\<rparr>"

text \<open>
  \<^verbatim>\<open>class KVStore\<close>; the members \<^verbatim>\<open>cache_\<close>, \<^verbatim>\<open>metrics_\<close> and
  \<^verbatim>\<open>snapshot_file_\<close> are written without the trailing underscore.
\<close>

record KVStore =
  cache :: LRUCache
  metrics :: PerformanceMetrics
  snapshot_file :: string

definition KVStore_get ::
  "string \<Rightarrow> string \<Rightarrow> time_point \<Rightarrow> KVStore \<Rightarrow> bool \<times> string \<times> KVStore" where
  "KVStore_get k val now s =
     (let m1 = (metrics s)\<lparr>total_operations := total_operations (metrics s) + 1\<rparr>;
          (found, val', c') = LRUCache_get k val now (cache s);
          m2 = (if found then m1\<lparr>cache_hits := cache_hits m1 + 1\<rparr>
                else m1\<lparr>cache_misses := cache_misses m1 + 1\<rparr>)
      in (found, val', s\<lparr>cache := c', metrics := m2\<rparr>))"

definition KVStore_put :: "string \<Rightarrow> string \<Rightarrow> time_point \<Rightarrow> KVStore \<Rightarrow> KVStore" where
  "KVStore_put k val now s =
     (let m1 = (metrics s)\<lparr>total_operations := total_operations (metrics s) + 1\<rparr>;
          old_size = LRUCache_size (cache s);
          c' = LRUCache_put k val now (cache s);
          m2 = (if LRUCache_size c' < old_size + 1 then m1\<lparr>evictions := evictions m1 + 1\<rparr>
                else m1)
      in s\<lparr>cache := c', metrics := m2\<rparr>)"

definition KVStore_remove :: "string \<Rightarrow> KVStore \<Rightarrow> bool \<times> KVStore" where
  "KVStore_remove k s =
     (let m1 = (metrics s)\<lparr>total_operations := total_operations (metrics s) + 1\<rparr>;
          (found, c') = LRUCache_remove k (cache s)
      in (found, s\<lparr>cache := c', metrics := m1\<rparr>))"

text \<open>\<^verbatim>\<open>reset_metrics()\<close> assigns a newly constructed \<^verbatim>\<open>PerformanceMetrics\<close>.\<close>

definition KVStore_reset_metrics :: "time_point \<Rightarrow> KVStore \<Rightarrow> KVStore" where
  "KVStore_reset_metrics now s = s\<lparr>metrics := PerformanceMetrics_new now\<rparr>"

definition KVStore_clear :: "time_point \<Rightarrow> KVStore \<Rightarrow> KVStore" where
  "KVStore_clear now s = KVStore_reset_metrics now (s\<lparr>cache := LRUCache_clear (cache s)\<rparr>)"

section \<open>Invariants of the engine\<close>

text \<open>
  \<open>linked\<close>: the nodes of the recency list are pairwise different objects, every
  handle of the index leads to a node of the list that carries the key it is filed
  under, \<open>current_size\<close> is the length of the list, and the list is no longer than
  the capacity, which is positive.
\<close>

definition linked :: "LRUCache \<Rightarrow> bool" where
  "linked c \<longleftrightarrow>
     distinct (order c) \<and>
     (\<forall>k p. cache_map c k = Some p \<longrightarrow> p \<in> set (order c) \<and> key (heap c p) = k) \<and>
     (\<forall>p \<in> set (order c). p < next_ptr c) \<and>
     unat (current_size c) = length (order c) \<and>
     length (order c) \<le> unat (capacity c) \<and>
     capacity c \<noteq> 0"

text \<open>\<open>indexed\<close>: moreover every node of the list is found in the index under its key.\<close>

definition indexed :: "LRUCache \<Rightarrow> bool" where
  "indexed c \<longleftrightarrow> linked c \<and> (\<forall>p \<in> set (order c). cache_map c (key (heap c p)) = Some p)"

section \<open>Vocabulary of the statements\<close>

text \<open>
  The content of the recency list from head to tail, as pairs of key and value.
\<close>

definition entries :: "LRUCache \<Rightarrow> (string \<times> string) list" where
  "entries c = map (\<lambda>p. (key (heap c p), value_str (entry (heap c p)))) (order c)"

text \<open>
  A record whose key and value are shorter than \<open>2^32\<close> bytes, the bound of the
  snapshot format on a length field.
\<close>

definition fits32 :: "string \<times> string \<Rightarrow> bool" where
  "fits32 r \<longleftrightarrow> length (fst r) < 2 ^ 32 \<and> length (snd r) < 2 ^ 32"

text \<open>The records of a snapshot stream one after the other, each as \<open>write_entry\<close> writes it.\<close>

definition write_records :: "(string \<times> string) list \<Rightarrow> string" where
  "write_records rs = concat (map (\<lambda>r. write_entry (fst r) (snd r)) rs)"

text \<open>
  The insertions of the loading loop for the records \<open>rs\<close>, the first of them in
  round \<open>j\<close>.
\<close>

primrec insert_all ::
  "nat \<Rightarrow> (string \<times> string) list \<Rightarrow> (nat \<Rightarrow> time_point) \<Rightarrow> LRUCache \<Rightarrow> LRUCache" where
  "insert_all j [] clk c = c"
| "insert_all j (r # rs) clk c = insert_all (Suc j) rs clk (insert_loaded (fst r) (snd r) (clk j) c)"

text \<open>The keys of the recency list from head to tail.\<close>

definition keys_of :: "LRUCache \<Rightarrow> string list" where
  "keys_of c = map (\<lambda>p. key (heap c p)) (order c)"

text \<open>A sequence of \<open>put\<close> calls, each with its key, its value and the clock reading.\<close>

fun puts :: "(string \<times> string \<times> time_point) list \<Rightarrow> LRUCache \<Rightarrow> LRUCache" where
  "puts [] c = c"
| "puts ((k, v, t) # ps) c = puts ps (LRUCache_put k v t c)"

text \<open>
  An engine of capacity \<open>2^32\<close> filled by \<open>2^32\<close> calls of \<open>put\<close> with pairwise
  different keys of four bytes and empty values.
\<close>

definition many_puts :: "(string \<times> string \<times> time_point) list" where
  "many_puts = map (\<lambda>p. (enc32 (of_nat p), [], 0)) [0..<2 ^ 32]"

definition big_engine :: LRUCache where
  "big_engine = puts many_puts (projr (LRUCache_new (2 ^ 32)))"

text \<open>
  Sequences of operations on the engine. A \<open>get\<close> is run with an empty
  out-parameter; a load that ends with an indeterminate size ends the run.
\<close>

datatype operation =
  Get string time_point
  | Put string string time_point
  | Remove string
  | Clear
  | Load "string option" "nat \<Rightarrow> time_point"

fun apply_operation :: "operation \<Rightarrow> LRUCache \<Rightarrow> error + LRUCache" where
  "apply_operation (Get k now) c = Inr (snd (snd (LRUCache_get k [] now c)))"
| "apply_operation (Put k v now) c = Inr (LRUCache_put k v now c)"
| "apply_operation (Remove k) c = Inr (snd (LRUCache_remove k c))"
| "apply_operation Clear c = Inr (LRUCache_clear c)"
| "apply_operation (Load file clk) c =
     (case load_snapshot file clk c of Inl e \<Rightarrow> Inl e | Inr (ok, c') \<Rightarrow> Inr c')"

fun run :: "operation list \<Rightarrow> LRUCache \<Rightarrow> error + LRUCache" where
  "run [] c = Inr c"
| "run (x # xs) c = (case apply_operation x c of Inl e \<Rightarrow> Inl e | Inr c' \<Rightarrow> run xs c')"

fun is_load :: "operation \<Rightarrow> bool" where
  "is_load (Load file clk) = True"
| "is_load x = False"

section \<open>Properties\<close>

subsection \<open>Size arithmetic and list facts\<close>

lemma unat_succ_below:
  fixes x y :: size_t
  assumes "unat x < unat y"
  shows "unat (x + 1) = Suc (unat x)"
proof -
  have "unat y < 2 ^ LENGTH(64)" by (rule unsigned_less)
  with assms have "unat x + unat (1 :: size_t) < 2 ^ LENGTH(64)" by simp
  then have "unat (x + 1) = unat x + unat (1 :: size_t)"
    by (simp only: unat_add_lem [THEN iffD1])
  then show ?thesis by simp
qed

lemma unat_pred_pos:
  fixes x :: size_t
  assumes "0 < unat x"
  shows "unat (x - 1) = unat x - 1"
  using assms by (simp add: unat_minus_one unat_gt_0)

lemma remove1_last_butlast:
  "distinct xs \<Longrightarrow> xs \<noteq> [] \<Longrightarrow> remove1 (last xs) xs = butlast xs"
  by (induction xs) (auto split: if_splits)

lemma linkedI:
  assumes "distinct (order c)"
    and "\<And>k p. cache_map c k = Some p \<Longrightarrow> p \<in> set (order c) \<and> key (heap c p) = k"
    and "\<And>p. p \<in> set (order c) \<Longrightarrow> p < next_ptr c"
    and "unat (current_size c) = length (order c)"
    and "length (order c) \<le> unat (capacity c)"
    and "capacity c \<noteq> 0"
  shows "linked c"
  using assms unfolding linked_def by blast

lemma linked_distinct: "linked c \<Longrightarrow> distinct (order c)"
  and linked_map_in: "linked c \<Longrightarrow> cache_map c k = Some p \<Longrightarrow> p \<in> set (order c)"
  and linked_map_key: "linked c \<Longrightarrow> cache_map c k = Some p \<Longrightarrow> key (heap c p) = k"
  and linked_fresh: "linked c \<Longrightarrow> p \<in> set (order c) \<Longrightarrow> p < next_ptr c"
  and linked_size: "linked c \<Longrightarrow> unat (current_size c) = length (order c)"
  and linked_bound: "linked c \<Longrightarrow> length (order c) \<le> unat (capacity c)"
  and linked_cap: "linked c \<Longrightarrow> capacity c \<noteq> 0"
  unfolding linked_def by blast+

lemma indexed_new: "LRUCache_new cap = Inr c \<Longrightarrow> indexed c"
  by (auto simp: LRUCache_new_def indexed_def linked_def split: if_splits)

lemma indexed_clear: "linked c \<Longrightarrow> indexed (LRUCache_clear c)"
  by (auto simp: LRUCache_clear_def indexed_def linked_def)

lemma length_move: "p \<in> set xs \<Longrightarrow> Suc (length (remove1 p xs)) = length xs"
  using length_pos_if_in_set [of p xs] by (simp add: length_remove1)

lemma linked_get:
  assumes "linked c"
  shows "linked (snd (snd (LRUCache_get k val now c)))"
proof (cases "cache_map c k")
  case None
  then show ?thesis using assms by (simp add: LRUCache_get_def)
next
  case (Some p)
  have pin: "p \<in> set (order c)" using assms Some by (rule linked_map_in)
  let ?c' = "snd (snd (LRUCache_get k val now c))"
  have ord: "order ?c' = p # remove1 p (order c)"
    and mp: "cache_map ?c' = cache_map c"
    and np: "next_ptr ?c' = next_ptr c"
    and sz: "current_size ?c' = current_size c"
    and cp: "capacity ?c' = capacity c"
    and hp: "\<And>q. key (heap ?c' q) = key (heap c q)"
    using Some by (simp_all add: LRUCache_get_def move_to_front_def Let_def)
  show ?thesis
  proof (rule linkedI)
    show "distinct (order ?c')" using linked_distinct [OF assms] by (simp add: ord)
    show "cache_map ?c' k' = Some q \<Longrightarrow> q \<in> set (order ?c') \<and> key (heap ?c' q) = k'" for k' q
      using linked_map_in [OF assms, of k' q] linked_map_key [OF assms, of k' q]
        linked_distinct [OF assms]
      by (auto simp: ord mp hp)
    show "q \<in> set (order ?c') \<Longrightarrow> q < next_ptr ?c'" for q
      using linked_fresh [OF assms, of q] linked_fresh [OF assms pin] linked_distinct [OF assms]
      by (auto simp: ord np)
    show "unat (current_size ?c') = length (order ?c')"
      using linked_size [OF assms] pin by (simp add: ord sz length_move)
    show "length (order ?c') \<le> unat (capacity ?c')"
      using linked_bound [OF assms] pin by (simp add: ord cp length_move)
    show "capacity ?c' \<noteq> 0" using linked_cap [OF assms] by (simp add: cp)
  qed
qed


lemma full_iff:
  assumes "linked c"
  shows "current_size c \<ge> capacity c \<longleftrightarrow> length (order c) = unat (capacity c)"
  using linked_size [OF assms] linked_bound [OF assms] by (auto simp: word_le_nat_alt)

lemma put_present:
  assumes "cache_map c k = Some p"
  shows "order (LRUCache_put k val now c) = p # remove1 p (order c)"
    and "cache_map (LRUCache_put k val now c) = cache_map c"
    and "next_ptr (LRUCache_put k val now c) = next_ptr c"
    and "current_size (LRUCache_put k val now c) = current_size c"
    and "capacity (LRUCache_put k val now c) = capacity c"
    and "key (heap (LRUCache_put k val now c) q) = key (heap c q)"
    and "value_str (entry (heap (LRUCache_put k val now c) p)) = val"
    and "q \<noteq> p \<Longrightarrow> heap (LRUCache_put k val now c) q = heap c q"
  using assms by (simp_all add: LRUCache_put_def move_to_front_def Let_def)

lemma put_absent_room:
  assumes "linked c" and "cache_map c k = None" and "length (order c) < unat (capacity c)"
  shows "LRUCache_put k val now c =
         c\<lparr>heap := (heap c)(next_ptr c := \<lparr>key = k, entry = CacheEntry_new val now\<rparr>),
           next_ptr := Suc (next_ptr c),
           order := next_ptr c # order c,
           cache_map := (cache_map c)(k \<mapsto> next_ptr c),
           current_size := current_size c + 1\<rparr>"
  using assms full_iff [OF assms(1)] by (simp add: LRUCache_put_def Let_def)

lemma remove_tail_nonempty:
  assumes "order c \<noteq> []" and "distinct (order c)"
  shows "remove_tail c = (Some (last (order c)), c\<lparr>order := butlast (order c)\<rparr>)"
proof -
  have "remove_tail c = (Some (last (order c)), remove_node (last (order c)) c)"
    using assms(1) by (cases "order c") (simp_all add: remove_tail_def)
  then show ?thesis
    using remove1_last_butlast [OF assms(2,1)] by (simp add: remove_node_def)
qed

lemma put_absent_full:
  assumes "linked c" and "cache_map c k = None" and "length (order c) = unat (capacity c)"
  shows "LRUCache_put k val now c =
         c\<lparr>heap := (heap c)(next_ptr c := \<lparr>key = k, entry = CacheEntry_new val now\<rparr>),
           next_ptr := Suc (next_ptr c),
           order := next_ptr c # butlast (order c),
           cache_map := ((cache_map c)(key (heap c (last (order c))) := None))(k \<mapsto> next_ptr c),
           current_size := current_size c - 1 + 1\<rparr>"
proof -
  define c1 where
    "c1 = c\<lparr>heap := (heap c)(next_ptr c := \<lparr>key = k, entry = CacheEntry_new val now\<rparr>),
            next_ptr := Suc (next_ptr c)\<rparr>"
  have ne: "order c1 \<noteq> []"
    using assms(3) linked_cap [OF assms(1)] by (auto simp: unat_eq_0 c1_def)
  have ds: "distinct (order c1)"
    using linked_distinct [OF assms(1)] by (simp add: c1_def)
  have lt: "last (order c) \<noteq> next_ptr c"
    using linked_fresh [OF assms(1), of "last (order c)"] ne by (auto simp: c1_def)
  have full: "capacity c1 \<le> current_size c1"
    using assms(3) full_iff [OF assms(1)] by (simp add: c1_def)
  have "LRUCache_put k val now c =
        (let c2 = (case remove_tail c1 of
                     (Some tail_node, c') \<Rightarrow>
                       c'\<lparr>cache_map := (cache_map c')(key (heap c' tail_node) := None),
                          current_size := current_size c' - 1\<rparr>
                   | (None, c') \<Rightarrow> c')
         in c2\<lparr>order := next_ptr c # order c2,
               cache_map := (cache_map c2)(k \<mapsto> next_ptr c),
               current_size := current_size c2 + 1\<rparr>)"
    using assms(2) full by (simp add: LRUCache_put_def Let_def c1_def)
  also have "\<dots> = c\<lparr>heap := (heap c)(next_ptr c := \<lparr>key = k, entry = CacheEntry_new val now\<rparr>),
           next_ptr := Suc (next_ptr c),
           order := next_ptr c # butlast (order c),
           cache_map := ((cache_map c)(key (heap c (last (order c))) := None))(k \<mapsto> next_ptr c),
           current_size := current_size c - 1 + 1\<rparr>"
    using lt by (simp add: remove_tail_nonempty [OF ne ds]) (simp add: c1_def)
  finally show ?thesis .
qed


lemma in_butlast_distinct:
  "distinct xs \<Longrightarrow> q \<in> set xs \<Longrightarrow> q \<noteq> last xs \<Longrightarrow> q \<in> set (butlast xs)"
  by (induction xs) (auto split: if_splits)

lemma butlast_not_last:
  "distinct xs \<Longrightarrow> q \<in> set (butlast xs) \<Longrightarrow> q \<noteq> last xs"
  by (induction xs) (auto split: if_splits dest: in_set_butlastD)

lemma put_absent:
  fixes val :: string and now :: time_point
  assumes "linked c" and "cache_map c k = None"
  defines "c' \<equiv> LRUCache_put k val now c"
  defines "room \<equiv> length (order c) < unat (capacity c)"
  shows "heap c' = (heap c)(next_ptr c := \<lparr>key = k, entry = CacheEntry_new val now\<rparr>)"
    and "next_ptr c' = Suc (next_ptr c)"
    and "order c' = next_ptr c # (if room then order c else butlast (order c))"
    and "cache_map c' =
           (if room then cache_map c
            else (cache_map c)(key (heap c (last (order c))) := None))(k \<mapsto> next_ptr c)"
    and "capacity c' = capacity c"
    and "unat (current_size c') = length (order c')"
    and "length (order c') \<le> unat (capacity c')"
proof -
  have sz: "unat (current_size c + 1) = Suc (length (order c))" if room
    using unat_succ_below [of "current_size c" "capacity c"] that linked_size [OF assms(1)]
    by (simp add: room_def)
  have full: "length (order c) = unat (capacity c)" if "\<not> room"
    using that linked_bound [OF assms(1)] by (simp add: room_def)
  have ne: "order c \<noteq> []" if "\<not> room"
    using full [OF that] linked_cap [OF assms(1)] by (auto simp: unat_eq_0)
  have sz': "unat (current_size c) = Suc (length (butlast (order c)))" if "\<not> room"
    using ne [OF that] linked_size [OF assms(1)] by (cases "order c") simp_all
  show "heap c' = (heap c)(next_ptr c := \<lparr>key = k, entry = CacheEntry_new val now\<rparr>)"
    and "next_ptr c' = Suc (next_ptr c)"
    and "order c' = next_ptr c # (if room then order c else butlast (order c))"
    and "cache_map c' =
           (if room then cache_map c
            else (cache_map c)(key (heap c (last (order c))) := None))(k \<mapsto> next_ptr c)"
    and "capacity c' = capacity c"
    using put_absent_room [OF assms(1,2), of val now] put_absent_full [OF assms(1,2), of val now] full
    unfolding c'_def room_def by (cases "length (order c) < unat (capacity c)"; simp)+
  show "unat (current_size c') = length (order c')"
    using put_absent_room [OF assms(1,2), of val now] put_absent_full [OF assms(1,2), of val now] full
      sz sz'
    unfolding c'_def room_def by (cases "length (order c) < unat (capacity c)"; simp)
  show "length (order c') \<le> unat (capacity c')"
    using put_absent_room [OF assms(1,2), of val now] put_absent_full [OF assms(1,2), of val now] full
      sz' linked_size [OF assms(1)]
    unfolding c'_def room_def by (cases "length (order c) < unat (capacity c)"; simp)
qed

lemma linked_put:
  assumes "linked c"
  shows "linked (LRUCache_put k val now c)"
proof (cases "cache_map c k")
  case (Some p)
  have pin: "p \<in> set (order c)" using assms Some by (rule linked_map_in)
  note eqs = put_present [OF Some, where val = val and now = now]
  show ?thesis
  proof (rule linkedI)
    show "distinct (order (LRUCache_put k val now c))"
      using linked_distinct [OF assms] by (simp add: eqs)
    show "cache_map (LRUCache_put k val now c) k' = Some q \<Longrightarrow>
          q \<in> set (order (LRUCache_put k val now c)) \<and> key (heap (LRUCache_put k val now c) q) = k'" for k' q
      using linked_map_in [OF assms, of k' q] linked_map_key [OF assms, of k' q]
        linked_distinct [OF assms]
      by (auto simp: eqs)
    show "q \<in> set (order (LRUCache_put k val now c)) \<Longrightarrow> q < next_ptr (LRUCache_put k val now c)" for q
      using linked_fresh [OF assms, of q] linked_fresh [OF assms pin] linked_distinct [OF assms]
      by (auto simp: eqs)
    show "unat (current_size (LRUCache_put k val now c)) = length (order (LRUCache_put k val now c))"
      using linked_size [OF assms] pin by (simp add: eqs length_move)
    show "length (order (LRUCache_put k val now c)) \<le> unat (capacity (LRUCache_put k val now c))"
      using linked_bound [OF assms] pin by (simp add: eqs length_move)
    show "capacity (LRUCache_put k val now c) \<noteq> 0" using linked_cap [OF assms] by (simp add: eqs)
  qed
next
  case None
  note eqs = put_absent [OF assms None, where val = val and now = now]
  have fr: "next_ptr c \<notin> set (order c)"
    using linked_fresh [OF assms, of "next_ptr c"] by auto
  show ?thesis
  proof (rule linkedI)
    show "distinct (order (LRUCache_put k val now c))"
      using linked_distinct [OF assms] fr by (auto simp: eqs(3) distinct_butlast dest: in_set_butlastD)
    show "cache_map (LRUCache_put k val now c) k' = Some q \<Longrightarrow>
          q \<in> set (order (LRUCache_put k val now c)) \<and> key (heap (LRUCache_put k val now c) q) = k'" for k' q
      using linked_map_in [OF assms, of k' q] linked_map_key [OF assms, of k' q]
        linked_distinct [OF assms] fr
      by (auto simp: eqs(1,3,4) split: if_splits intro!: in_butlast_distinct)
    show "q \<in> set (order (LRUCache_put k val now c)) \<Longrightarrow> q < next_ptr (LRUCache_put k val now c)" for q
      using linked_fresh [OF assms, of q]
      by (auto simp: eqs(2,3) less_Suc_eq split: if_splits dest: in_set_butlastD)
    show "unat (current_size (LRUCache_put k val now c)) = length (order (LRUCache_put k val now c))"
      by (rule eqs(6))
    show "length (order (LRUCache_put k val now c)) \<le> unat (capacity (LRUCache_put k val now c))"
      by (rule eqs(7))
    show "capacity (LRUCache_put k val now c) \<noteq> 0" using linked_cap [OF assms] by (simp add: eqs(5))
  qed
qed


lemma remove_present:
  assumes "cache_map c k = Some p"
  shows "fst (LRUCache_remove k c)"
    and "order (snd (LRUCache_remove k c)) = remove1 p (order c)"
    and "cache_map (snd (LRUCache_remove k c)) = (cache_map c)(k := None)"
    and "next_ptr (snd (LRUCache_remove k c)) = next_ptr c"
    and "current_size (snd (LRUCache_remove k c)) = current_size c - 1"
    and "capacity (snd (LRUCache_remove k c)) = capacity c"
    and "heap (snd (LRUCache_remove k c)) = heap c"
  using assms by (simp_all add: LRUCache_remove_def remove_node_def Let_def)

lemma linked_remove:
  assumes "linked c"
  shows "linked (snd (LRUCache_remove k c))"
proof (cases "cache_map c k")
  case None
  then show ?thesis using assms by (simp add: LRUCache_remove_def)
next
  case (Some p)
  have pin: "p \<in> set (order c)" using assms Some by (rule linked_map_in)
  note eqs = remove_present [OF Some]
  have pos: "0 < unat (current_size c)"
    using linked_size [OF assms] length_pos_if_in_set [OF pin] by simp
  have len: "Suc (length (remove1 p (order c))) = length (order c)"
    using pin by (rule length_move)
  show ?thesis
  proof (rule linkedI)
    show "distinct (order (snd (LRUCache_remove k c)))"
      using linked_distinct [OF assms] by (simp add: eqs)
    show "cache_map (snd (LRUCache_remove k c)) k' = Some q \<Longrightarrow>
          q \<in> set (order (snd (LRUCache_remove k c))) \<and> key (heap (snd (LRUCache_remove k c)) q) = k'" for k' q
      using linked_map_in [OF assms, of k' q] linked_map_key [OF assms, of k' q]
        linked_map_key [OF assms Some] linked_distinct [OF assms]
      by (auto simp: eqs split: if_splits)
    show "q \<in> set (order (snd (LRUCache_remove k c))) \<Longrightarrow> q < next_ptr (snd (LRUCache_remove k c))" for q
      using linked_fresh [OF assms, of q] linked_distinct [OF assms]
      by (auto simp: eqs)
    show "unat (current_size (snd (LRUCache_remove k c))) = length (order (snd (LRUCache_remove k c)))"
      using linked_size [OF assms] len by (simp add: eqs unat_pred_pos [OF pos])
    show "length (order (snd (LRUCache_remove k c))) \<le> unat (capacity (snd (LRUCache_remove k c)))"
      using linked_bound [OF assms] len by (simp add: eqs)
    show "capacity (snd (LRUCache_remove k c)) \<noteq> 0" using linked_cap [OF assms] by (simp add: eqs)
  qed
qed

lemma indexedI:
  assumes "linked c" and "\<And>p. p \<in> set (order c) \<Longrightarrow> cache_map c (key (heap c p)) = Some p"
  shows "indexed c"
  using assms unfolding indexed_def by blast

lemma indexed_linked: "indexed c \<Longrightarrow> linked c"
  and indexed_map: "indexed c \<Longrightarrow> p \<in> set (order c) \<Longrightarrow> cache_map c (key (heap c p)) = Some p"
  unfolding indexed_def by blast+

lemma indexed_get:
  assumes "indexed c"
  shows "indexed (snd (snd (LRUCache_get k val now c)))"
proof (cases "cache_map c k")
  case None
  then show ?thesis using assms by (simp add: LRUCache_get_def)
next
  case (Some p)
  note lk = indexed_linked [OF assms]
  have pin: "p \<in> set (order c)" using lk Some by (rule linked_map_in)
  let ?c' = "snd (snd (LRUCache_get k val now c))"
  have ord: "order ?c' = p # remove1 p (order c)"
    and mp: "cache_map ?c' = cache_map c"
    and hp: "\<And>q. key (heap ?c' q) = key (heap c q)"
    using Some by (simp_all add: LRUCache_get_def move_to_front_def Let_def)
  show ?thesis
  proof (rule indexedI)
    show "linked ?c'" using lk by (rule linked_get)
    show "q \<in> set (order ?c') \<Longrightarrow> cache_map ?c' (key (heap ?c' q)) = Some q" for q
      using indexed_map [OF assms, of q] pin linked_distinct [OF lk]
      by (auto simp: ord mp hp)
  qed
qed

lemma indexed_put:
  assumes "indexed c"
  shows "indexed (LRUCache_put k val now c)"
proof (cases "cache_map c k")
  case (Some p)
  note lk = indexed_linked [OF assms]
  have pin: "p \<in> set (order c)" using lk Some by (rule linked_map_in)
  note eqs = put_present [OF Some, where val = val and now = now]
  show ?thesis
  proof (rule indexedI)
    show "linked (LRUCache_put k val now c)" using lk by (rule linked_put)
    show "q \<in> set (order (LRUCache_put k val now c)) \<Longrightarrow>
          cache_map (LRUCache_put k val now c) (key (heap (LRUCache_put k val now c) q)) = Some q" for q
      using indexed_map [OF assms, of q] pin linked_distinct [OF lk]
      by (auto simp: eqs)
  qed
next
  case None
  note lk = indexed_linked [OF assms]
  note eqs = put_absent [OF lk None, where val = val and now = now]
  have fr: "next_ptr c \<notin> set (order c)"
    using linked_fresh [OF lk, of "next_ptr c"] by auto
  show ?thesis
  proof (rule indexedI)
    show "linked (LRUCache_put k val now c)" using lk by (rule linked_put)
    show "cache_map (LRUCache_put k val now c) (key (heap (LRUCache_put k val now c) q)) = Some q"
      if "q \<in> set (order (LRUCache_put k val now c))" for q
    proof (cases "q = next_ptr c")
      case True
      then show ?thesis by (simp add: eqs(1,4))
    next
      case False
      with that have qin: "q \<in> set (order c)"
        by (auto simp: eqs(3) split: if_splits dest: in_set_butlastD)
      have mq: "cache_map c (key (heap c q)) = Some q" using assms qin by (rule indexed_map)
      then have nk: "key (heap c q) \<noteq> k" using None by auto
      show ?thesis
      proof (cases "length (order c) < unat (capacity c)")
        case True
        then show ?thesis using False mq nk by (simp add: eqs(1,4))
      next
        case full: False
        then have "q \<in> set (butlast (order c))" using that False by (simp add: eqs(3))
        then have ql: "q \<noteq> last (order c)"
          using linked_distinct [OF lk] by (auto dest: butlast_not_last)
        have "order c \<noteq> []" using qin by auto
        then have "cache_map c (key (heap c (last (order c)))) = Some (last (order c))"
          using indexed_map [OF assms, of "last (order c)"] by simp
        then have "key (heap c (last (order c))) \<noteq> key (heap c q)" using mq ql by auto
        then show ?thesis using False mq nk full by (simp add: eqs(1,4))
      qed
    qed
  qed
qed

lemma indexed_remove:
  assumes "indexed c"
  shows "indexed (snd (LRUCache_remove k c))"
proof (cases "cache_map c k")
  case None
  then show ?thesis using assms by (simp add: LRUCache_remove_def)
next
  case (Some p)
  note lk = indexed_linked [OF assms]
  note eqs = remove_present [OF Some]
  show ?thesis
  proof (rule indexedI)
    show "linked (snd (LRUCache_remove k c))" using lk by (rule linked_remove)
    show "cache_map (snd (LRUCache_remove k c)) (key (heap (snd (LRUCache_remove k c)) q)) = Some q"
      if "q \<in> set (order (snd (LRUCache_remove k c)))" for q
    proof -
      have qin: "q \<in> set (order c)" and qp: "q \<noteq> p"
        using that linked_distinct [OF lk] by (auto simp: eqs)
      have "cache_map c (key (heap c q)) = Some q" using assms qin by (rule indexed_map)
      then show ?thesis using qp Some by (auto simp: eqs)
    qed
  qed
qed

lemma indexed_dom:
  assumes "indexed c"
  shows "dom (cache_map c) = (\<lambda>p. key (heap c p)) ` set (order c)"
proof (rule set_eqI, rule iffI)
  note lk = indexed_linked [OF assms]
  fix k
  assume "k \<in> dom (cache_map c)"
  then obtain p where p: "cache_map c k = Some p" by blast
  have "p \<in> set (order c)" "key (heap c p) = k"
    using linked_map_in [OF lk p] linked_map_key [OF lk p] by blast+
  then show "k \<in> (\<lambda>p. key (heap c p)) ` set (order c)" by blast
next
  fix k
  assume "k \<in> (\<lambda>p. key (heap c p)) ` set (order c)"
  then obtain p where "p \<in> set (order c)" and k: "k = key (heap c p)" by blast
  then have "cache_map c (key (heap c p)) = Some p" using indexed_map [OF assms] by blast
  then show "k \<in> dom (cache_map c)" unfolding k by blast
qed

lemma indexed_inj:
  assumes "indexed c"
  shows "inj_on (\<lambda>p. key (heap c p)) (set (order c))"
proof (rule inj_onI)
  fix p q
  assume p: "p \<in> set (order c)" and q: "q \<in> set (order c)"
    and e: "key (heap c p) = key (heap c q)"
  have "cache_map c (key (heap c p)) = Some p" using assms p by (rule indexed_map)
  moreover have "cache_map c (key (heap c q)) = Some q" using assms q by (rule indexed_map)
  ultimately have "Some p = Some q" unfolding e by (rule trans [OF sym])
  then show "p = q" by (simp only: option.inject)
qed

lemma indexed_card:
  assumes "indexed c"
  shows "card (dom (cache_map c)) = length (order c)"
  using indexed_inj [OF assms] linked_distinct [OF indexed_linked [OF assms]]
  by (simp add: indexed_dom [OF assms] card_image distinct_card)

lemma get_present:
  assumes "cache_map c k = Some p"
  shows "fst (LRUCache_get k val now c) = True"
    and "fst (snd (LRUCache_get k val now c)) = value_str (entry (heap c p))"
  using assms by (simp_all add: LRUCache_get_def move_to_front_def Let_def)

lemma get_found_iff: "fst (LRUCache_get k val now c) \<longleftrightarrow> cache_map c k \<noteq> None"
  by (cases "cache_map c k") (simp_all add: LRUCache_get_def Let_def)



subsection \<open>Overwriting a key\<close>





subsection \<open>The counters of the facade\<close>

text \<open>
  Claim C8, as amended. \<open>get\<close>, \<open>put\<close> and \<open>remove\<close> of the store add exactly one
  to \<open>total_operations\<close> and hand the call to the engine; \<open>get\<close> then adds one to
  \<open>cache_hits\<close> when the key was found and one to \<open>cache_misses\<close> when it was not,
  and leaves the other of the two alone. \<open>clear\<close> adds nothing to
  \<open>total_operations\<close>: it clears the engine and replaces the metrics by new ones, all
  counters 0.
\<close>

theorem facade_counters:
  "total_operations (metrics (snd (snd (KVStore_get k val now s)))) =
     total_operations (metrics s) + 1 \<and>
   fst (KVStore_get k val now s) = fst (LRUCache_get k val now (cache s)) \<and>
   cache (snd (snd (KVStore_get k val now s))) = snd (snd (LRUCache_get k val now (cache s))) \<and>
   cache_hits (metrics (snd (snd (KVStore_get k val now s)))) =
     (if fst (KVStore_get k val now s) then cache_hits (metrics s) + 1 else cache_hits (metrics s)) \<and>
   cache_misses (metrics (snd (snd (KVStore_get k val now s)))) =
     (if fst (KVStore_get k val now s) then cache_misses (metrics s) else cache_misses (metrics s) + 1) \<and>
   total_operations (metrics (KVStore_put k val now s)) = total_operations (metrics s) + 1 \<and>
   cache (KVStore_put k val now s) = LRUCache_put k val now (cache s) \<and>
   total_operations (metrics (snd (KVStore_remove k s))) = total_operations (metrics s) + 1 \<and>
   cache (snd (KVStore_remove k s)) = snd (LRUCache_remove k (cache s)) \<and>
   metrics (KVStore_clear now s) = PerformanceMetrics_new now \<and>
   total_operations (metrics (KVStore_clear now s)) = 0 \<and>
   cache (KVStore_clear now s) = LRUCache_clear (cache s)"
  by (simp add: KVStore_get_def KVStore_put_def KVStore_remove_def KVStore_clear_def
      KVStore_reset_metrics_def PerformanceMetrics_new_def Let_def split: prod.splits)


theorem facade_counters_witness:
  "total_operations (metrics (snd (snd (KVStore_get ''a'' ''old'' 3
      \<lparr>cache = projr (LRUCache_new 2), metrics = PerformanceMetrics_new 0, snapshot_file = []\<rparr>)))) = 1 \<and>
   cache_misses (metrics (snd (snd (KVStore_get ''a'' ''old'' 3
      \<lparr>cache = projr (LRUCache_new 2), metrics = PerformanceMetrics_new 0, snapshot_file = []\<rparr>)))) = 1 \<and>
   cache_hits (metrics (snd (snd (KVStore_get ''a'' ''old'' 3
      \<lparr>cache = projr (LRUCache_new 2), metrics = PerformanceMetrics_new 0, snapshot_file = []\<rparr>)))) = 0"
  using facade_counters [where k = "''a''" and val = "''old''" and now = 3
      and s = "\<lparr>cache = projr (LRUCache_new 2), metrics = PerformanceMetrics_new 0, snapshot_file = []\<rparr>"]
  by (simp add: PerformanceMetrics_new_def LRUCache_get_def LRUCache_new_def KVStore_get_def)

text \<open>
  Claim C8, as stated, fails for \<open>clear\<close>: on a store whose \<open>total_operations\<close> is 0
  the counter is 0 after \<open>clear\<close>, not 1.
\<close>

theorem clear_counts_no_operation:
  "total_operations (metrics (KVStore_clear 5
      \<lparr>cache = projr (LRUCache_new 2), metrics = PerformanceMetrics_new 0, snapshot_file = []\<rparr>)) \<noteq>
   total_operations (metrics
      \<lparr>cache = projr (LRUCache_new 2), metrics = PerformanceMetrics_new 0, snapshot_file = []\<rparr>) + 1"
  by (simp add: KVStore_clear_def KVStore_reset_metrics_def PerformanceMetrics_new_def)


subsection \<open>Reading the snapshot format\<close>

lemma length_enc32: "length (enc32 w) = 4"
  by (simp add: enc32_def)

lemma digits_256:
  fixes n :: nat
  assumes "n < 2 ^ 32"
  shows "n mod 256 + 256 * (n div 256 mod 256 + 256 * (n div 65536 mod 256 + 256 * (n div 16777216 mod 256))) = n"
proof -
  have "n div 16777216 < 256" using assms by simp
  then have a: "n div 16777216 mod 256 = n div 16777216" by simp
  have "n div 16777216 = n div 65536 div 256"
    using div_mult2_eq [of n 65536 256] by simp
  then have b: "n div 65536 mod 256 + 256 * (n div 16777216) = n div 65536"
    using div_mult_mod_eq [of "n div 65536" 256] by simp
  have "n div 65536 = n div 256 div 256"
    using div_mult2_eq [of n 256 256] by simp
  then have c: "n div 256 mod 256 + 256 * (n div 65536) = n div 256"
    using div_mult_mod_eq [of "n div 256" 256] by simp
  show ?thesis
    unfolding a b c using div_mult_mod_eq [of n 256] by simp
qed

lemma dec32_enc32: "dec32 (enc32 w) = w"
proof -
  have "unat w < 2 ^ 32" using unsigned_less [of w, where ?'a = nat] by simp
  then show ?thesis
    using digits_256 [of "unat w"] by (simp add: dec32_def enc32_def)
qed

text \<open>
  Claim C6. For every snapshot stream that has a version field (at least four bytes)
  whose value is not 1, \<open>load_snapshot\<close> returns \<open>false\<close> and leaves the engine
  cleared: the index and the recency list are empty and \<open>current_size\<close> is 0, whatever
  the engine held before.
\<close>

theorem load_version_mismatch:
  assumes "4 \<le> length bytes" and "dec32 (take 4 bytes) \<noteq> 1"
  shows "load_snapshot (Some bytes) clk c = Inr (False, LRUCache_clear c) \<and>
         cache_map (LRUCache_clear c) = Map.empty \<and>
         order (LRUCache_clear c) = [] \<and>
         LRUCache_size (LRUCache_clear c) = 0 \<and>
         LRUCache_empty (LRUCache_clear c)"
  using assms
  by (simp add: load_snapshot_def read_u32_def LRUCache_clear_def LRUCache_size_def
      LRUCache_empty_def Let_def split: prod.splits)

theorem load_version_mismatch_witness:
  "4 \<le> length [CHR 0x02, CHR 0x00, CHR 0x00, CHR 0x00, CHR 0x00, CHR 0x00, CHR 0x00, CHR 0x00] \<and>
   dec32 (take 4 [CHR 0x02, CHR 0x00, CHR 0x00, CHR 0x00, CHR 0x00, CHR 0x00, CHR 0x00, CHR 0x00]) \<noteq> 1 \<and>
   load_snapshot (Some [CHR 0x02, CHR 0x00, CHR 0x00, CHR 0x00, CHR 0x00, CHR 0x00, CHR 0x00, CHR 0x00])
     (\<lambda>i. 0) (LRUCache_put ''a'' ''1'' 7 (projr (LRUCache_new 2))) =
     Inr (False, LRUCache_clear (LRUCache_put ''a'' ''1'' 7 (projr (LRUCache_new 2))))"
proof -
  have h1: "4 \<le> length [CHR 0x02, CHR 0x00, CHR 0x00, CHR 0x00, CHR 0x00, CHR 0x00, CHR 0x00, CHR 0x00]"
    by simp
  have h2: "dec32 (take 4 [CHR 0x02, CHR 0x00, CHR 0x00, CHR 0x00, CHR 0x00, CHR 0x00, CHR 0x00, CHR 0x00]) \<noteq> 1"
    by (simp add: dec32_def)
  show ?thesis
    using h1 h2 load_version_mismatch [OF h1 h2, of "\<lambda>i. 0" "LRUCache_put ''a'' ''1'' 7 (projr (LRUCache_new 2))"]
    by blast
qed

subsection \<open>The loading loop on a stream of records\<close>

lemma read_u32_enc:
  assumes "good f" and "rest f = enc32 w @ tail"
  shows "read_u32 f = (Some w, f\<lparr>rest := tail\<rparr>)"
  using assms by (simp add: read_u32_def length_enc32 dec32_enc32)

lemma istream_read_exact:
  assumes "good f" and "rest f = bs @ tail" and "length bs = n"
  shows "istream_read n dst f = (bs, f\<lparr>rest := tail\<rparr>)"
  using assms by (simp add: istream_read_def)

lemma istream_read_short:
  assumes "good f" and "length (rest f) < n"
  shows "istream_read n dst f = (rest f @ drop (length (rest f)) dst, f\<lparr>rest := [], good := False\<rparr>)"
  using assms by (simp add: istream_read_def)

lemma unat_len32:
  assumes "n < 2 ^ 32"
  shows "unat (of_nat n :: uint32_t) = n"
  using assms by (simp add: unat_of_nat)

lemma write_entry_fits:
  assumes "fits32 (k, v)"
  shows "write_entry k v = enc32 (of_nat (length k)) @ k @ enc32 (of_nat (length v)) @ v"
  using assms by (simp add: write_entry_def fits32_def Let_def unat_len32)

lemma unat_succ32:
  fixes i count :: uint32_t
  assumes "i < count"
  shows "unat (i + 1) = Suc (unat i)"
proof -
  have lt: "unat i < unat count" using assms by (simp add: word_less_nat_alt)
  have "unat count < 2 ^ LENGTH(32)" by (rule unsigned_less)
  with lt have "unat i + unat (1 :: uint32_t) < 2 ^ LENGTH(32)" by simp
  then have "unat (i + 1) = unat i + unat (1 :: uint32_t)"
    by (simp only: unat_add_lem [THEN iffD1])
  then show ?thesis by simp
qed

lemma ucast_less_cap:
  fixes i :: uint32_t and cap :: size_t
  shows "ucast i < cap \<longleftrightarrow> unat i < unat cap"
  by (simp add: word_less_nat_alt unsigned_ucast_eq take_bit_nat_eq_self
      less_trans [OF unsigned_less [of i, where ?'a = nat]])

lemma load_step:
  assumes "i < count" and "unat i < unat (capacity c)"
    and "good f" and "rest f = write_entry k v @ tail" and "fits32 (k, v)"
  shows "load_entries i count clk f c =
         load_entries (i + 1) count clk (f\<lparr>rest := tail\<rparr>) (insert_loaded k v (clk (unat i)) c)"
proof -
  have r: "rest f = enc32 (of_nat (length k)) @ (k @ enc32 (of_nat (length v)) @ v @ tail)"
    using assms(4,5) by (simp add: write_entry_fits)
  have lk: "unat (of_nat (length k) :: uint32_t) = length k"
    and lv: "unat (of_nat (length v) :: uint32_t) = length v"
    using assms(5) by (simp_all add: fits32_def unat_len32)
  have 1: "read_u32 f = (Some (of_nat (length k)), f\<lparr>rest := k @ enc32 (of_nat (length v)) @ v @ tail\<rparr>)"
    using assms(3) r by (rule read_u32_enc)
  have 2: "istream_read (length k) dst (f\<lparr>rest := k @ enc32 (of_nat (length v)) @ v @ tail\<rparr>)
           = (k, f\<lparr>rest := enc32 (of_nat (length v)) @ v @ tail\<rparr>)" for dst
    using assms(3) by (simp add: istream_read_def)
  have 3: "read_u32 (f\<lparr>rest := enc32 (of_nat (length v)) @ v @ tail\<rparr>)
           = (Some (of_nat (length v)), f\<lparr>rest := v @ tail\<rparr>)"
    using assms(3) by (simp add: read_u32_enc)
  have 4: "istream_read (length v) dst (f\<lparr>rest := v @ tail\<rparr>) = (v, f\<lparr>rest := tail\<rparr>)" for dst
    using assms(3) by (simp add: istream_read_def)
  show ?thesis
    using assms(1,2)
    by (subst load_entries.simps) (simp add: ucast_less_cap 1 lk 2 3 lv 4)
qed


lemma capacity_insert_loaded [simp]: "capacity (insert_loaded k v t c) = capacity c"
  by (simp add: insert_loaded_def Let_def)

lemma capacity_insert_all [simp]: "capacity (insert_all j rs clk c) = capacity c"
  by (induction rs arbitrary: j c) simp_all

lemma load_stop:
  assumes "unat i = min (unat count) (unat (capacity c))"
  shows "load_entries i count clk f c = Inr (True, c)"
proof -
  have "\<not> (unat i < unat count \<and> unat i < unat (capacity c))"
    using assms by auto
  then have n: "\<not> (i < count \<and> ucast i < capacity c)"
    unfolding ucast_less_cap by (simp add: word_less_nat_alt)
  show ?thesis by (subst load_entries.simps) (simp only: n if_False)
qed

lemma load_prefix:
  assumes "good f" and "rest f = write_records rs @ tail"
    and "\<forall>r \<in> set rs. fits32 r"
    and "unat i + length rs \<le> unat count"
    and "unat i + length rs \<le> unat (capacity c)"
  shows "load_entries i count clk f c =
         load_entries (i + of_nat (length rs)) count clk (f\<lparr>rest := tail\<rparr>)
           (insert_all (unat i) rs clk c)"
  using assms
proof (induction rs arbitrary: i f c)
  case Nil
  then have "f\<lparr>rest := tail\<rparr> = f" by (cases f) (simp add: write_records_def)
  then show ?case by simp
next
  case (Cons r rs)
  obtain k v where r: "r = (k, v)" by (cases r)
  have lt: "i < count" using Cons.prems(4) by (simp add: word_less_nat_alt)
  have lc: "unat i < unat (capacity c)" using Cons.prems(5) by simp
  have su: "unat (i + 1) = Suc (unat i)" using lt by (rule unat_succ32)
  have rf: "rest f = write_entry k v @ (write_records rs @ tail)"
    using Cons.prems(2) by (simp add: write_records_def r)
  have ft: "fits32 (k, v)" using Cons.prems(3) by (simp add: r)
  have "load_entries i count clk f c =
        load_entries (i + 1) count clk (f\<lparr>rest := write_records rs @ tail\<rparr>)
          (insert_loaded k v (clk (unat i)) c)"
    using lt lc Cons.prems(1) rf ft by (rule load_step)
  also have "\<dots> = load_entries (i + 1 + of_nat (length rs)) count clk
                     (f\<lparr>rest := write_records rs @ tail, rest := tail\<rparr>)
                     (insert_all (unat (i + 1)) rs clk (insert_loaded k v (clk (unat i)) c))"
    using Cons.prems by (intro Cons.IH) (simp_all add: su)
  finally have "load_entries i count clk f c =
        load_entries (i + 1 + of_nat (length rs)) count clk (f\<lparr>rest := tail\<rparr>)
          (insert_all (Suc (unat i)) rs clk (insert_loaded k v (clk (unat i)) c))"
    by (simp only: su) simp
  moreover have "i + 1 + of_nat (length rs) = i + of_nat (length (r # rs))" by simp
  ultimately show ?case by (simp only: r insert_all.simps fst_conv snd_conv)
qed

lemma unat_add_of_nat32:
  fixes i :: uint32_t
  assumes "unat i + n \<le> unat (count :: uint32_t)"
  shows "unat (i + of_nat n) = unat i + n"
proof -
  have b: "unat count < 2 ^ LENGTH(32)" by (rule unsigned_less)
  then have n: "unat (of_nat n :: uint32_t) = n" using assms by (simp add: unat_of_nat)
  have "unat i + unat (of_nat n :: uint32_t) < 2 ^ LENGTH(32)" using assms b n by simp
  then have "unat (i + of_nat n) = unat i + unat (of_nat n :: uint32_t)"
    by (simp only: unat_add_lem [THEN iffD1])
  then show ?thesis using n by simp
qed

lemma load_all:
  assumes "good f" and "rest f = write_records rs @ tail"
    and "\<forall>r \<in> set rs. fits32 r"
    and "unat i + length rs = min (unat count) (unat (capacity c))"
  shows "load_entries i count clk f c = Inr (True, insert_all (unat i) rs clk c)"
proof -
  have a: "unat i + length rs \<le> unat count" and b: "unat i + length rs \<le> unat (capacity c)"
    using assms(4) by simp_all
  have "load_entries i count clk f c =
        load_entries (i + of_nat (length rs)) count clk (f\<lparr>rest := tail\<rparr>)
          (insert_all (unat i) rs clk c)"
    using assms(1-3) a b by (rule load_prefix)
  also have "\<dots> = Inr (True, insert_all (unat i) rs clk c)"
    using assms(4) by (intro load_stop) (simp add: unat_add_of_nat32 [OF a])
  finally show ?thesis .
qed

lemma load_header:
  "load_snapshot (Some (enc32 1 @ enc32 count @ body)) clk c =
   load_entries 0 count clk \<lparr>rest = body, good = True\<rparr> (LRUCache_clear c)"
  by (simp add: load_snapshot_def read_u32_enc LRUCache_clear_def Let_def)


lemma insert_all_shape:
  "order (insert_all j rs clk c) = rev [next_ptr c ..< next_ptr c + length rs] @ order c \<and>
   next_ptr (insert_all j rs clk c) = next_ptr c + length rs \<and>
   current_size (insert_all j rs clk c) = current_size c + of_nat (length rs) \<and>
   (\<forall>p < next_ptr c. heap (insert_all j rs clk c) p = heap c p)"
proof (induction rs arbitrary: j c)
  case Nil
  then show ?case by simp
next
  case (Cons r rs)
  let ?c = "insert_loaded (fst r) (snd r) (clk j) c"
  have n: "next_ptr ?c = Suc (next_ptr c)" and o: "order ?c = next_ptr c # order c"
    and z: "current_size ?c = current_size c + 1"
    and h: "\<And>p. p < next_ptr c \<Longrightarrow> heap ?c p = heap c p"
    by (simp_all add: insert_loaded_def Let_def)
  have u: "[next_ptr c ..< Suc (next_ptr c + length rs)] =
           next_ptr c # [Suc (next_ptr c) ..< Suc (next_ptr c + length rs)]"
    by (rule upt_conv_Cons) simp
  have w: "current_size c + 1 + of_nat (length rs) = current_size c + of_nat (length (r # rs))"
    by simp
  show ?case
    using Cons.IH [of "Suc j" ?c] h unfolding n o z w
    by (simp add: u del: upt_Suc of_nat_Suc)
qed

lemma entries_insert_all:
  assumes "\<forall>p \<in> set (order c). p < next_ptr c"
  shows "entries (insert_all j rs clk c) = rev rs @ entries c"
  using assms
proof (induction rs arbitrary: j c)
  case Nil
  then show ?case by simp
next
  case (Cons r rs)
  let ?c = "insert_loaded (fst r) (snd r) (clk j) c"
  have fr: "\<forall>p \<in> set (order ?c). p < next_ptr ?c"
    using Cons.prems by (auto simp: insert_loaded_def Let_def less_Suc_eq)
  have "next_ptr c \<notin> set (order c)" using Cons.prems by auto
  then have e: "entries ?c = r # entries c"
    by (auto simp: entries_def insert_loaded_def Let_def CacheEntry_new_def)
  show ?case using Cons.IH [OF fr, of "Suc j"] by (simp add: e)
qed

lemma load_truncated_value:
  assumes "i < count" and "unat i < unat (capacity c)" and "good f"
    and "rest f = enc32 (of_nat (length k)) @ k @ enc32 (of_nat (length v)) @ take m v"
    and "fits32 (k, v)" and "m < length v"
  shows "load_entries i count clk f c =
         load_entries (i + 1) count clk (f\<lparr>rest := [], good := False\<rparr>)
           (insert_loaded k (take m v @ replicate (length v - m) (CHR 0x00)) (clk (unat i)) c)"
proof -
  have lk: "unat (of_nat (length k) :: uint32_t) = length k"
    and lv: "unat (of_nat (length v) :: uint32_t) = length v"
    using assms(5) by (simp_all add: fits32_def unat_len32)
  have 1: "read_u32 f = (Some (of_nat (length k)), f\<lparr>rest := k @ enc32 (of_nat (length v)) @ take m v\<rparr>)"
    using assms(3,4) by (rule read_u32_enc)
  have 2: "istream_read (length k) dst (f\<lparr>rest := k @ enc32 (of_nat (length v)) @ take m v\<rparr>)
           = (k, f\<lparr>rest := enc32 (of_nat (length v)) @ take m v\<rparr>)" for dst
    using assms(3) by (simp add: istream_read_def)
  have 3: "read_u32 (f\<lparr>rest := enc32 (of_nat (length v)) @ take m v\<rparr>)
           = (Some (of_nat (length v)), f\<lparr>rest := take m v\<rparr>)"
    using assms(3) by (simp add: read_u32_enc)
  have 4: "istream_read (length v) (replicate (length v) (CHR 0x00)) (f\<lparr>rest := take m v\<rparr>)
           = (take m v @ replicate (length v - m) (CHR 0x00), f\<lparr>rest := [], good := False\<rparr>)"
    using assms(3,6) by (simp add: istream_read_def min_def)
  show ?thesis
    using assms(1,2)
    by (subst load_entries.simps) (simp add: ucast_less_cap 1 lk 2 3 lv 4)
qed


text \<open>
  The loop never gives \<open>false\<close>, so \<open>load_snapshot\<close> gives \<open>false\<close> only for a file
  that cannot be opened and for a version other than 1.
\<close>

lemma load_entries_true:
  assumes "load_entries i count clk f c = Inr (b, c')"
  shows "b"
  using assms
proof (induction i count clk f c rule: load_entries.induct)
  case (1 i count clk f c)
  show ?case
  proof (cases "i < count \<and> ucast i < capacity c")
    case False
    have "load_entries i count clk f c = Inr (True, c)"
      by (subst load_entries.simps) (simp only: False if_False)
    then show ?thesis using "1.prems" by simp
  next
    case True
    obtain ks f1 where r1: "read_u32 f = (ks, f1)" by (cases "read_u32 f")
    show ?thesis
    proof (cases ks)
      case None
      then have "load_entries i count clk f c = Inl indeterminate_value"
        using True r1 by (subst load_entries.simps) simp
      then show ?thesis using "1.prems"(1) by simp
    next
      case (Some key_size)
      obtain k f2 where r2: "istream_read (unat key_size) (replicate (unat key_size) (CHR 0x00)) f1 = (k, f2)"
        by (cases "istream_read (unat key_size) (replicate (unat key_size) (CHR 0x00)) f1")
      obtain vs f3 where r3: "read_u32 f2 = (vs, f3)" by (cases "read_u32 f2")
      show ?thesis
      proof (cases vs)
        case None
        then have "load_entries i count clk f c = Inl indeterminate_value"
          using True r1 Some r2 r3 by (subst load_entries.simps) simp
        then show ?thesis using "1.prems"(1) by simp
      next
        case vsome: (Some value_size)
        obtain v f4 where r4: "istream_read (unat value_size) (replicate (unat value_size) (CHR 0x00)) f3 = (v, f4)"
          by (cases "istream_read (unat value_size) (replicate (unat value_size) (CHR 0x00)) f3")
        let ?c = "insert_loaded k v (clk (unat i)) c"
        have step: "load_entries i count clk f c = load_entries (i + 1) count clk f4 ?c"
          using True r1 Some r2 r3 vsome r4 by (subst load_entries.simps) simp
        show ?thesis
          using "1.IH" [OF True r1 [symmetric] Some r2 [symmetric] r3 [symmetric] vsome r4 [symmetric]]
            "1.prems"(1) step by simp
      qed
    qed
  qed
qed

lemma load_false_only:
  assumes "load_snapshot src clk c = Inr (False, c')"
  shows "src = None \<or> (\<exists>bytes. src = Some bytes \<and> 4 \<le> length bytes \<and> dec32 (take 4 bytes) \<noteq> 1)"
proof (cases src)
  case None
  then show ?thesis by simp
next
  case (Some bytes)
  obtain ver f1 where r1: "read_u32 \<lparr>rest = bytes, good = True\<rparr> = (ver, f1)"
    by (cases "read_u32 \<lparr>rest = bytes, good = True\<rparr>")
  obtain cnt f2 where r2: "read_u32 f1 = (cnt, f2)" by (cases "read_u32 f1")
  have ld: "load_snapshot src clk c =
        (case ver of None \<Rightarrow> Inl indeterminate_value
         | Some v \<Rightarrow> if v \<noteq> 1 then Inr (False, LRUCache_clear c)
                     else (case cnt of None \<Rightarrow> Inl indeterminate_value
                           | Some n \<Rightarrow> load_entries 0 n clk f2 (LRUCache_clear c)))"
    unfolding LRUCache_clear_def by (simp add: load_snapshot_def Some r1 r2 Let_def)
  show ?thesis
  proof (cases ver)
    case None
    then show ?thesis using assms ld by simp
  next
    case v: (Some v)
    have ge: "4 \<le> length bytes" and dv: "v = dec32 (take 4 bytes)"
      using r1 v by (auto simp: read_u32_def split: if_splits)
    show ?thesis
    proof (cases "v = 1")
      case False
      then show ?thesis using Some ge dv by simp
    next
      case True
      show ?thesis
      proof (cases cnt)
        case None
        then show ?thesis using assms ld v True by simp
      next
        case (Some n)
        then have "load_entries 0 n clk f2 (LRUCache_clear c) = Inr (False, c')"
          using assms ld v True by simp
        then have False by (rule load_entries_true)
        then show ?thesis ..
      qed
    qed
  qed
qed

subsection \<open>The index after loading a key twice\<close>

text \<open>
  Claim C3 at a stream with a repeated key: version 1, \<open>count = 2\<close>, the records
  \<open>(a, 1)\<close> and \<open>(a, 2)\<close>, loaded into a new engine of capacity 2. The load returns
  \<open>true\<close>; afterwards the recency list has two nodes and \<open>current_size\<close> is 2, but
  the index has one key.
\<close>

theorem load_duplicate_keys_breaks_index:
  "load_snapshot
     (Some [CHR 0x01, CHR 0x00, CHR 0x00, CHR 0x00,
            CHR 0x02, CHR 0x00, CHR 0x00, CHR 0x00,
            CHR 0x01, CHR 0x00, CHR 0x00, CHR 0x00, CHR ''a'',
            CHR 0x01, CHR 0x00, CHR 0x00, CHR 0x00, CHR ''1'',
            CHR 0x01, CHR 0x00, CHR 0x00, CHR 0x00, CHR ''a'',
            CHR 0x01, CHR 0x00, CHR 0x00, CHR 0x00, CHR ''2''])
     id (projr (LRUCache_new 2)) =
   Inr (True, insert_loaded ''a'' ''2'' 1 (insert_loaded ''a'' ''1'' 0 (projr (LRUCache_new 2)))) \<and>
   card (dom (cache_map (insert_loaded ''a'' ''2'' 1
      (insert_loaded ''a'' ''1'' 0 (projr (LRUCache_new 2)))))) = 1 \<and>
   length (order (insert_loaded ''a'' ''2'' 1
      (insert_loaded ''a'' ''1'' 0 (projr (LRUCache_new 2))))) = 2 \<and>
   current_size (insert_loaded ''a'' ''2'' 1
      (insert_loaded ''a'' ''1'' 0 (projr (LRUCache_new 2)))) = 2"
  by (simp add: load_snapshot_def read_u32_def dec32_def istream_read_def load_entries.simps
      LRUCache_new_def insert_loaded_def Let_def)

subsection \<open>Eviction order\<close>

lemma take_append_take: "take n (xs @ take n ys) = take n (xs @ ys)"
  by (induction xs arbitrary: n) (simp_all add: take_Cons split: nat.splits)

lemma butlast_take_full: "length xs = n \<Longrightarrow> n \<noteq> 0 \<Longrightarrow> x # butlast xs = take n (x # xs)"
  by (cases n) (simp_all add: butlast_conv_take)

lemma keys_put_absent:
  assumes "indexed c" and "cache_map c k = None"
  shows "keys_of (LRUCache_put k val now c) = take (unat (capacity c)) (k # keys_of c)"
proof -
  note lk = indexed_linked [OF assms(1)]
  note eqs = put_absent [OF lk assms(2), where val = val and now = now]
  have fr: "next_ptr c \<notin> set (order c)"
    using linked_fresh [OF lk, of "next_ptr c"] by auto
  have old: "map (\<lambda>p. key (heap (LRUCache_put k val now c) p)) xs = map (\<lambda>p. key (heap c p)) xs"
    if "next_ptr c \<notin> set xs" for xs
    using that by (induction xs) (simp_all add: eqs(1))
  have new: "key (heap (LRUCache_put k val now c) (next_ptr c)) = k"
    by (simp add: eqs(1))
  show ?thesis
  proof (cases "length (order c) < unat (capacity c)")
    case True
    then show ?thesis
      using old [OF fr] new by (simp add: keys_of_def eqs(3))
  next
    case False
    then have full: "length (order c) = unat (capacity c)"
      using linked_bound [OF lk] by simp
    have ne: "unat (capacity c) \<noteq> 0" using linked_cap [OF lk] by (simp add: unat_eq_0)
    have frb: "next_ptr c \<notin> set (butlast (order c))"
      using fr by (auto dest: in_set_butlastD)
    have "keys_of (LRUCache_put k val now c) = k # map (\<lambda>p. key (heap c p)) (butlast (order c))"
      using False old [OF frb] new by (simp add: keys_of_def eqs(3))
    also have "\<dots> = k # butlast (keys_of c)" by (simp add: keys_of_def map_butlast)
    also have "\<dots> = take (unat (capacity c)) (k # keys_of c)"
      using full ne by (intro butlast_take_full) (simp_all add: keys_of_def)
    finally show ?thesis .
  qed
qed

lemma indexed_lookup:
  assumes "indexed c"
  shows "cache_map c k = None \<longleftrightarrow> k \<notin> set (keys_of c)"
proof -
  have "dom (cache_map c) = set (keys_of c)"
    using indexed_dom [OF assms] by (simp add: keys_of_def)
  then have "k \<in> dom (cache_map c) \<longleftrightarrow> k \<in> set (keys_of c)" by simp
  then show ?thesis by (simp only: domIff) blast
qed

lemma capacity_put [simp]: "capacity (LRUCache_put k v t c) = capacity c"
  by (simp add: LRUCache_put_def Let_def move_to_front_def remove_tail_def remove_node_def
      split: option.splits list.splits)

lemma puts_distinct_keys:
  assumes "indexed c" and "distinct (map fst ps)" and "set (map fst ps) \<inter> set (keys_of c) = {}"
  shows "indexed (puts ps c) \<and>
         keys_of (puts ps c) = take (unat (capacity c)) (rev (map fst ps) @ keys_of c)"
  using assms
proof (induction ps arbitrary: c)
  case Nil
  have "length (keys_of c) \<le> unat (capacity c)"
    using linked_bound [OF indexed_linked [OF Nil(1)]] by (simp add: keys_of_def)
  then show ?case using Nil by simp
next
  case (Cons a ps)
  obtain k v t where a: "a = (k, v, t)" by (cases a)
  have ab: "cache_map c k = None"
    using Cons.prems(3) by (simp add: indexed_lookup [OF Cons.prems(1)] a)
  let ?c = "LRUCache_put k v t c"
  have ix: "indexed ?c" using Cons.prems(1) by (rule indexed_put)
  have ks: "keys_of ?c = take (unat (capacity c)) (k # keys_of c)"
    using Cons.prems(1) ab by (rule keys_put_absent)
  have dj: "set (map fst ps) \<inter> set (keys_of ?c) = {}"
  proof -
    have "set (keys_of ?c) \<subseteq> insert k (set (keys_of c))"
      by (auto simp: ks dest: in_set_takeD)
    moreover have "k \<notin> set (map fst ps)" using Cons.prems(2) by (simp add: a)
    moreover have "set (map fst ps) \<inter> set (keys_of c) = {}" using Cons.prems(3) by auto
    ultimately show ?thesis by blast
  qed
  have ds: "distinct (map fst ps)" using Cons.prems(2) by simp
  show ?case
    using Cons.IH [OF ix ds dj] by (simp add: a ks take_append_take)
qed

lemma nth_in_take_rev:
  assumes "distinct xs" and "i < length xs"
  shows "xs ! i \<in> set (take m (rev xs)) \<longleftrightarrow> length xs - m \<le> i"
proof -
  let ?d = "length xs - m"
  have "xs ! i \<in> set (take m (rev xs)) \<longleftrightarrow> xs ! i \<in> set (drop ?d xs)"
    by (simp add: take_rev)
  also have "\<dots> \<longleftrightarrow> ?d \<le> i"
  proof
    assume "xs ! i \<in> set (drop ?d xs)"
    then obtain j where j: "j < length (drop ?d xs)" and e: "drop ?d xs ! j = xs ! i"
      by (auto simp: in_set_conv_nth)
    have "xs ! (?d + j) = xs ! i" using j e by simp
    moreover have "?d + j < length xs" using j by simp
    ultimately have "?d + j = i" using assms by (simp add: nth_eq_iff_index_eq)
    then show "?d \<le> i" by simp
  next
    assume le: "?d \<le> i"
    then have "i - ?d < length (drop ?d xs)" using assms(2) by simp
    moreover have "drop ?d xs ! (i - ?d) = xs ! i" using le assms(2) by simp
    ultimately show "xs ! i \<in> set (drop ?d xs)" by (metis nth_mem)
  qed
  finally show ?thesis .
qed



text \<open>
  Claim C2. For every capacity \<open>C > 0\<close> and every sequence of \<open>n > C\<close> calls of
  \<open>put\<close> with pairwise different keys on a newly constructed engine, with nothing in
  between, a following \<open>get\<close> of the \<open>i\<close>-th key (counted from 0 here, so that
  \<open>i < n - C\<close> is the claim's \<open>i \<le> n - C\<close> counted from 1) returns
  \<open>found = false\<close> exactly when \<open>i < n - C\<close>: the \<open>n - C\<close> oldest insertions are
  evicted, the \<open>C\<close> newest are kept.
\<close>

theorem lru_eviction_order:
  assumes "LRUCache_new cap = Inr c0"
    and "distinct (map fst ps)" and "unat cap < length ps" and "i < length ps"
  shows "fst (LRUCache_get (fst (ps ! i)) val now (puts ps c0)) = False \<longleftrightarrow>
         i < length ps - unat cap"
proof -
  have ix0: "indexed c0" using assms(1) by (rule indexed_new)
  have c0: "keys_of c0 = []" and cp: "capacity c0 = cap"
    using assms(1) by (auto simp: LRUCache_new_def keys_of_def split: if_splits)
  have r: "indexed (puts ps c0) \<and>
           keys_of (puts ps c0) = take (unat (capacity c0)) (rev (map fst ps) @ keys_of c0)"
    using ix0 assms(2) by (rule puts_distinct_keys) (simp add: c0)
  then have ix: "indexed (puts ps c0)"
    and ks: "keys_of (puts ps c0) = take (unat cap) (rev (map fst ps))"
    by (simp_all add: c0 cp)
  have ki: "fst (ps ! i) = map fst ps ! i" using assms(4) by simp
  have "fst (LRUCache_get (fst (ps ! i)) val now (puts ps c0)) = False \<longleftrightarrow>
        cache_map (puts ps c0) (fst (ps ! i)) = None"
    by (simp add: get_found_iff)
  also have "\<dots> \<longleftrightarrow> map fst ps ! i \<notin> set (take (unat cap) (rev (map fst ps)))"
    by (simp only: indexed_lookup [OF ix] ks ki)
  also have "\<dots> \<longleftrightarrow> \<not> length (map fst ps) - unat cap \<le> i"
    using assms(2,4) by (subst nth_in_take_rev) simp_all
  also have "\<dots> \<longleftrightarrow> i < length ps - unat cap" by auto
  finally show ?thesis .
qed


theorem lru_eviction_order_witness:
  "LRUCache_new 2 = Inr (projr (LRUCache_new 2)) \<and>
   distinct (map fst [(''a'', ''1'', 0 :: nat), (''b'', ''2'', 1), (''c'', ''3'', 2)]) \<and>
   unat (2 :: size_t) < length [(''a'', ''1'', 0 :: nat), (''b'', ''2'', 1), (''c'', ''3'', 2)] \<and>
   (0 :: nat) < length [(''a'', ''1'', 0 :: nat), (''b'', ''2'', 1), (''c'', ''3'', 2)] \<and>
   fst (LRUCache_get ''a'' ''old'' 9
          (puts [(''a'', ''1'', 0), (''b'', ''2'', 1), (''c'', ''3'', 2)] (projr (LRUCache_new 2)))) = False"
proof -
  have h1: "LRUCache_new 2 = Inr (projr (LRUCache_new 2))" by (simp add: LRUCache_new_def)
  have h2: "distinct (map fst [(''a'', ''1'', 0 :: nat), (''b'', ''2'', 1), (''c'', ''3'', 2)])"
    by simp
  have h3: "unat (2 :: size_t) < length [(''a'', ''1'', 0 :: nat), (''b'', ''2'', 1), (''c'', ''3'', 2)]"
    by simp
  have h4: "(0 :: nat) < length [(''a'', ''1'', 0 :: nat), (''b'', ''2'', 1), (''c'', ''3'', 2)]"
    by simp
  have "fst (LRUCache_get ''a'' ''old'' 9
          (puts [(''a'', ''1'', 0), (''b'', ''2'', 1), (''c'', ''3'', 2)] (projr (LRUCache_new 2)))) = False"
    using lru_eviction_order [OF h1 h2 h3 h4, where val = "''old''" and now = 9] by simp
  then show ?thesis using h1 h2 h3 h4 by blast
qed

subsection \<open>Saving and loading again\<close>

lemma write_entries_records:
  "write_entries h ps = write_records (map (\<lambda>p. (key (h p), value_str (entry (h p)))) ps)"
  by (induction ps) (simp_all add: write_records_def)

lemma save_well_formed:
  assumes "linked c" and "length (order c) < 2 ^ 32"
  shows "save_snapshot True c =
         Inr (enc32 1 @ enc32 (of_nat (length (order c))) @ write_records (entries c))"
proof -
  have "(ucast (current_size c) :: uint32_t) = of_nat (unat (current_size c))" by simp
  then have "(ucast (current_size c) :: uint32_t) = of_nat (length (order c))"
    by (simp only: linked_size [OF assms(1)])
  then show ?thesis
    by (simp add: save_snapshot_def Let_def write_entries_records entries_def)
qed

lemma dom_insert_all:
  "dom (cache_map (insert_all j rs clk c)) = dom (cache_map c) \<union> fst ` set rs"
  by (induction rs arbitrary: j c) (auto simp: insert_loaded_def Let_def)

lemma lookup_insert_all:
  assumes "cache_map (insert_all j rs clk c) k = Some p"
    and "\<forall>k p. cache_map c k = Some p \<longrightarrow> p < next_ptr c"
  shows "(cache_map c k = Some p \<and> k \<notin> fst ` set rs) \<or>
         (next_ptr c \<le> p \<and> (k, value_str (entry (heap (insert_all j rs clk c) p))) \<in> set rs)"
  using assms
proof (induction rs arbitrary: j c)
  case Nil
  then show ?case by simp
next
  case (Cons r rs)
  let ?c = "insert_loaded (fst r) (snd r) (clk j) c"
  let ?f = "insert_all (Suc j) rs clk ?c"
  have np: "next_ptr ?c = Suc (next_ptr c)"
    and mp: "cache_map ?c = (cache_map c)(fst r \<mapsto> next_ptr c)"
    and hp: "heap ?c (next_ptr c) = \<lparr>key = fst r, entry = CacheEntry_new (snd r) (clk j)\<rparr>"
    by (simp_all add: insert_loaded_def Let_def)
  have bound: "\<forall>k p. cache_map ?c k = Some p \<longrightarrow> p < next_ptr ?c"
    using Cons.prems(2) by (auto simp: mp np less_Suc_eq)
  have fin: "cache_map ?f k = Some p" using Cons.prems(1) by simp
  from Cons.IH [OF fin bound]
  consider (old) "cache_map ?c k = Some p" "k \<notin> fst ` set rs"
    | (new) "next_ptr ?c \<le> p" "(k, value_str (entry (heap ?f p))) \<in> set rs"
    by blast
  then show ?case
  proof cases
    case old
    show ?thesis
    proof (cases "k = fst r")
      case True
      then have p: "p = next_ptr c" using old(1) by (simp add: mp)
      have "heap ?f p = heap ?c p"
        using insert_all_shape [of "Suc j" rs clk ?c] by (simp add: p np)
      then have "value_str (entry (heap ?f p)) = snd r"
        by (simp add: p hp CacheEntry_new_def)
      then show ?thesis using True p by simp
    next
      case False
      then show ?thesis using old by (simp add: mp)
    qed
  next
    case new
    then show ?thesis by (simp add: np)
  qed
qed

lemma entries_of_indexed:
  assumes "indexed c"
  shows "distinct (map fst (entries c))"
    and "dom (cache_map c) = fst ` set (entries c)"
    and "cache_map c k = Some p \<Longrightarrow> (k, value_str (entry (heap c p))) \<in> set (entries c)"
proof -
  note lk = indexed_linked [OF assms]
  have "map fst (entries c) = map (\<lambda>p. key (heap c p)) (order c)"
    by (simp add: entries_def comp_def)
  then show "distinct (map fst (entries c))"
    using indexed_inj [OF assms] linked_distinct [OF lk] by (simp add: distinct_map)
  show "dom (cache_map c) = fst ` set (entries c)"
    by (simp add: indexed_dom [OF assms] entries_def image_image)
  show "(k, value_str (entry (heap c p))) \<in> set (entries c)" if "cache_map c k = Some p"
    using linked_map_in [OF lk that] linked_map_key [OF lk that]
    by (auto simp: entries_def image_iff)
qed



text \<open>
  Claim C4, as amended. For every engine \<open>E\<close> that satisfies the engine invariant
  (\<open>indexed\<close>: index and recency list agree, so keys are unique and
  \<open>size \<le> capacity\<close>), holds fewer than \<open>2^32\<close> entries and only keys and values
  shorter than \<open>2^32\<close> bytes: saving \<open>E\<close> succeeds, and loading the saved bytes into
  any engine \<open>E'\<close> of the same capacity returns \<open>true\<close> and leaves an engine in which
  \<open>get\<close> finds exactly the keys it finds in \<open>E\<close>, with the same values. Timestamps and
  access counters are not compared.
\<close>

theorem snapshot_round_trip:
  assumes "indexed E" and "length (order E) < 2 ^ 32"
    and "\<forall>r \<in> set (entries E). fits32 r" and "capacity E' = capacity E"
  shows "\<exists>bytes E''.
           save_snapshot True E = Inr bytes \<and>
           load_snapshot (Some bytes) clk E' = Inr (True, E'') \<and>
           (\<forall>k val now val' now'.
              fst (LRUCache_get k val' now' E'') = fst (LRUCache_get k val now E) \<and>
              (fst (LRUCache_get k val now E) \<longrightarrow>
                 fst (snd (LRUCache_get k val' now' E'')) = fst (snd (LRUCache_get k val now E))))"
proof -
  note lk = indexed_linked [OF assms(1)]
  let ?rs = "entries E"
  let ?n = "of_nat (length (order E)) :: uint32_t"
  let ?bytes = "enc32 1 @ enc32 ?n @ write_records ?rs"
  let ?c0 = "LRUCache_clear E'"
  let ?E'' = "insert_all 0 ?rs clk ?c0"
  have sv: "save_snapshot True E = Inr ?bytes"
    using lk assms(2) by (rule save_well_formed)
  have n: "unat ?n = length (order E)" using assms(2) by (rule unat_len32)
  have len: "length ?rs = length (order E)" by (simp add: entries_def)
  have cap: "capacity ?c0 = capacity E" using assms(4) by (simp add: LRUCache_clear_def)
  have "load_snapshot (Some (enc32 1 @ enc32 ?n @ (write_records ?rs @ []))) clk E' =
        load_entries 0 ?n clk \<lparr>rest = write_records ?rs @ [], good = True\<rparr> ?c0"
    by (rule load_header)
  also have "\<dots> = Inr (True, insert_all (unat (0 :: uint32_t)) ?rs clk ?c0)"
    using assms(3) linked_bound [OF lk]
    by (intro load_all [where tail = "[]"]) (simp_all add: n len cap)
  finally have ld: "load_snapshot (Some ?bytes) clk E' = Inr (True, ?E'')" by simp
  have dm: "dom (cache_map ?E'') = dom (cache_map E)"
    by (simp add: dom_insert_all entries_of_indexed(2) [OF assms(1)] LRUCache_clear_def)
  have found: "fst (LRUCache_get k val' now' ?E'') = fst (LRUCache_get k val now E)"
    for k val now val' now'
    using dm by (simp only: get_found_iff domIff [symmetric]) 
  have same: "fst (snd (LRUCache_get k val' now' ?E'')) = fst (snd (LRUCache_get k val now E))"
    if hit: "fst (LRUCache_get k val now E)" for k val now val' now'
  proof -
    obtain p where p: "cache_map E k = Some p" using hit by (auto simp: get_found_iff)
    then have "k \<in> dom (cache_map ?E'')" unfolding dm by blast
    then obtain q where q: "cache_map ?E'' k = Some q" by blast
    have "(k, value_str (entry (heap ?E'' q))) \<in> set ?rs"
      using lookup_insert_all [OF q] by (simp add: LRUCache_clear_def)
    moreover have "(k, value_str (entry (heap E p))) \<in> set ?rs"
      using assms(1) p by (rule entries_of_indexed(3))
    ultimately have "value_str (entry (heap ?E'' q)) = value_str (entry (heap E p))"
      using entries_of_indexed(1) [OF assms(1)] by (rule eq_key_imp_eq_value [rotated])
    then show ?thesis by (simp add: get_present(2) [OF p] get_present(2) [OF q])
  qed
  show ?thesis using sv ld found same by blast
qed



theorem snapshot_round_trip_witness:
  "indexed (puts [(''p1'', ''q1'', 0), (''p2'', ''q2'', 1)] (projr (LRUCache_new 100))) \<and>
   length (order (puts [(''p1'', ''q1'', 0), (''p2'', ''q2'', 1)] (projr (LRUCache_new 100)))) < 2 ^ 32 \<and>
   list_all fits32
     (entries (puts [(''p1'', ''q1'', 0), (''p2'', ''q2'', 1)] (projr (LRUCache_new 100)))) \<and>
   capacity (projr (LRUCache_new 100)) =
     capacity (puts [(''p1'', ''q1'', 0), (''p2'', ''q2'', 1)] (projr (LRUCache_new 100))) \<and>
   (\<exists>bytes E''.
      save_snapshot True (puts [(''p1'', ''q1'', 0), (''p2'', ''q2'', 1)] (projr (LRUCache_new 100))) =
        Inr bytes \<and>
      load_snapshot (Some bytes) id (projr (LRUCache_new 100)) = Inr (True, E'') \<and>
      fst (LRUCache_get ''p1'' [] 5 E'') = True \<and>
      fst (snd (LRUCache_get ''p1'' [] 5 E'')) = ''q1'')"
proof -
  let ?E = "puts [(''p1'', ''q1'', 0), (''p2'', ''q2'', 1)] (projr (LRUCache_new 100))"
  have new: "LRUCache_new 100 = Inr (projr (LRUCache_new 100))" by (simp add: LRUCache_new_def)
  have h1: "indexed ?E"
    using indexed_put [OF indexed_put [OF indexed_new [OF new]]] by simp
  have h2: "length (order ?E) < 2 ^ 32"
    by (simp add: LRUCache_put_def LRUCache_new_def Let_def word_le_nat_alt)
  have h3: "\<forall>r \<in> set (entries ?E). fits32 r"
    by (simp add: entries_def fits32_def LRUCache_put_def LRUCache_new_def Let_def CacheEntry_new_def
        word_le_nat_alt)
  have h4: "capacity (projr (LRUCache_new 100)) = capacity ?E" by simp
  have g: "fst (LRUCache_get ''p1'' [] 5 ?E) = True \<and> fst (snd (LRUCache_get ''p1'' [] 5 ?E)) = ''q1''"
    by (simp add: LRUCache_get_def LRUCache_put_def LRUCache_new_def Let_def CacheEntry_new_def
        move_to_front_def word_le_nat_alt)
  obtain bytes E'' where
    "save_snapshot True ?E = Inr bytes"
    "load_snapshot (Some bytes) id (projr (LRUCache_new 100)) = Inr (True, E'')"
    "\<forall>k val now val' now'.
        fst (LRUCache_get k val' now' E'') = fst (LRUCache_get k val now ?E) \<and>
        (fst (LRUCache_get k val now ?E) \<longrightarrow>
           fst (snd (LRUCache_get k val' now' E'')) = fst (snd (LRUCache_get k val now ?E)))"
    using snapshot_round_trip [OF h1 h2 h3 h4, where clk = id] by blast
  then have "save_snapshot True ?E = Inr bytes \<and>
      load_snapshot (Some bytes) id (projr (LRUCache_new 100)) = Inr (True, E'') \<and>
      fst (LRUCache_get ''p1'' [] 5 E'') = True \<and>
      fst (snd (LRUCache_get ''p1'' [] 5 E'')) = ''q1''"
    using g by metis
  then show ?thesis using h1 h2 h3 h4 unfolding list_all_iff by blast
qed

lemma many_puts_facts:
  "length many_puts = 2 ^ 32" "distinct (map fst many_puts)" "enc32 0 \<in> set (map fst many_puts)"
proof -
  have m: "map fst many_puts = map (\<lambda>p. enc32 (of_nat p)) [0..<2 ^ 32]"
    unfolding many_puts_def by (simp only: map_map comp_def fst_conv)
  show "length many_puts = 2 ^ 32" unfolding many_puts_def by (simp only: length_map length_upt diff_zero)
  have "inj_on (\<lambda>p. enc32 (of_nat p)) (set [0..<2 ^ 32])"
  proof (rule inj_onI)
    fix p q :: nat
    assume p: "p \<in> set [0..<2 ^ 32]" and q: "q \<in> set [0..<2 ^ 32]"
      and e: "enc32 (of_nat p) = enc32 (of_nat q)"
    have "dec32 (enc32 (of_nat p)) = dec32 (enc32 (of_nat q))" by (simp only: e)
    then have "(of_nat p :: uint32_t) = of_nat q" by (simp only: dec32_enc32)
    then have "unat (of_nat p :: uint32_t) = unat (of_nat q :: uint32_t)" by (simp only:)
    moreover have "p < 2 ^ 32" "q < 2 ^ 32" using p q by (simp_all only: set_upt atLeastLessThan_iff)
    ultimately show "p = q" by (simp only: unat_len32)
  qed
  then show "distinct (map fst many_puts)"
    unfolding m by (simp only: distinct_map distinct_upt simp_thms)
  have "(0::nat) \<in> set [0..<2 ^ 32]" by (simp only: set_upt) simp
  then have "enc32 (of_nat 0) \<in> set (map (\<lambda>p. enc32 (of_nat p)) [0..<2 ^ 32])"
    unfolding set_map by (rule imageI)
  moreover have "(of_nat 0 :: uint32_t) = 0" by simp
  ultimately show "enc32 0 \<in> set (map fst many_puts)" unfolding m by (simp only:)
qed

lemma big_engine_facts:
  "indexed big_engine" "length (order big_engine) = 2 ^ 32" "cache_map big_engine (enc32 0) \<noteq> None"
proof -
  let ?c0 = "projr (LRUCache_new (2 ^ 32))"
  have new: "LRUCache_new (2 ^ 32) = Inr ?c0" by (simp add: LRUCache_new_def)
  have ix0: "indexed ?c0" using new by (rule indexed_new)
  have c0: "keys_of ?c0 = []" and cp: "unat (capacity ?c0) = 2 ^ 32"
    by (simp_all add: LRUCache_new_def keys_of_def)
  have r: "indexed (puts many_puts ?c0) \<and>
           keys_of (puts many_puts ?c0) =
             take (unat (capacity ?c0)) (rev (map fst many_puts) @ keys_of ?c0)"
    using ix0 many_puts_facts(2) by (rule puts_distinct_keys) (simp only: c0 list.set Int_empty_right)
  then show ix: "indexed big_engine" unfolding big_engine_def by blast
  have "keys_of big_engine = take (2 ^ 32) (rev (map fst many_puts))"
    using r unfolding big_engine_def cp c0 by (simp only: append_Nil2)
  also have "\<dots> = rev (map fst many_puts)"
    by (rule take_all) (simp only: length_rev length_map many_puts_facts(1) order_refl)
  finally have ks: "keys_of big_engine = rev (map fst many_puts)" .
  have "length (order big_engine) = length (keys_of big_engine)"
    unfolding keys_of_def by (simp only: length_map)
  then show "length (order big_engine) = 2 ^ 32"
    unfolding ks by (simp only: length_rev length_map many_puts_facts(1))
  have "enc32 0 \<in> set (keys_of big_engine)"
    unfolding ks using many_puts_facts(3) by (simp only: set_rev)
  then show "cache_map big_engine (enc32 0) \<noteq> None"
    by (simp only: indexed_lookup [OF ix] simp_thms)
qed

text \<open>
  Claim C4, as stated, fails on an engine with \<open>2^32\<close> entries
  (\<open>size = capacity = 2^32\<close>): the count field of the snapshot is the size cast to
  32 bits, which is 0, so loading the snapshot into a new engine of the same capacity
  returns \<open>true\<close> with no entry, and a key that \<open>get\<close> finds in the saved engine is
  not found in the loaded one.
\<close>

theorem round_trip_loses_large_engine:
  "current_size big_engine \<le> capacity big_engine \<and>
   save_snapshot True big_engine =
     Inr (enc32 1 @ enc32 0 @ write_entries (heap big_engine) (order big_engine)) \<and>
   load_snapshot (Some (enc32 1 @ enc32 0 @ write_entries (heap big_engine) (order big_engine)))
     id (projr (LRUCache_new (capacity big_engine))) =
     Inr (True, LRUCache_clear (projr (LRUCache_new (capacity big_engine)))) \<and>
   fst (LRUCache_get (enc32 0) [] 0 big_engine) = True \<and>
   fst (LRUCache_get (enc32 0) [] 0 (LRUCache_clear (projr (LRUCache_new (capacity big_engine))))) = False"
proof -
  note lk = indexed_linked [OF big_engine_facts(1)]
  have 1: "current_size big_engine \<le> capacity big_engine"
    using linked_size [OF lk] linked_bound [OF lk] by (simp add: word_le_nat_alt)
  have "(ucast (current_size big_engine) :: uint32_t) = of_nat (unat (current_size big_engine))"
    by simp
  also have "\<dots> = of_nat (2 ^ 32)"
    by (simp only: linked_size [OF lk] big_engine_facts(2))
  also have "\<dots> = (0 :: uint32_t)" by simp
  finally have cnt: "(ucast (current_size big_engine) :: uint32_t) = 0" .
  have 2: "save_snapshot True big_engine =
           Inr (enc32 1 @ enc32 0 @ write_entries (heap big_engine) (order big_engine))"
    by (simp add: save_snapshot_def Let_def cnt)
  have "load_snapshot (Some (enc32 1 @ enc32 0 @ write_entries (heap big_engine) (order big_engine)))
          id (projr (LRUCache_new (capacity big_engine))) =
        load_entries 0 0 id
          \<lparr>rest = write_entries (heap big_engine) (order big_engine), good = True\<rparr>
          (LRUCache_clear (projr (LRUCache_new (capacity big_engine))))"
    by (rule load_header)
  also have "\<dots> = Inr (True, LRUCache_clear (projr (LRUCache_new (capacity big_engine))))"
    by (rule load_stop) simp
  finally have 3: "load_snapshot
      (Some (enc32 1 @ enc32 0 @ write_entries (heap big_engine) (order big_engine)))
      id (projr (LRUCache_new (capacity big_engine))) =
      Inr (True, LRUCache_clear (projr (LRUCache_new (capacity big_engine))))" .
  have 4: "fst (LRUCache_get (enc32 0) [] 0 big_engine) = True"
    using big_engine_facts(3) by (simp add: get_found_iff)
  have 5: "fst (LRUCache_get (enc32 0) [] 0
             (LRUCache_clear (projr (LRUCache_new (capacity big_engine))))) = False"
    by (simp add: get_found_iff LRUCache_clear_def)
  show ?thesis using 1 2 3 4 5 by blast
qed

subsection \<open>The invariants along sequences of operations\<close>

text \<open>
  \<open>linked\<close> survives every operation, \<open>load_snapshot\<close> included; \<open>indexed\<close>
  survives the constructor, \<open>get\<close>, \<open>put\<close>, \<open>remove\<close> and \<open>clear\<close>.
\<close>

lemma linked_insert_loaded:
  assumes "linked c" and "length (order c) < unat (capacity c)"
  shows "linked (insert_loaded k v t c)"
proof (rule linkedI)
  let ?c = "insert_loaded k v t c"
  have fr: "next_ptr c \<notin> set (order c)"
    using linked_fresh [OF assms(1), of "next_ptr c"] by auto
  have ord: "order ?c = next_ptr c # order c"
    and mp: "cache_map ?c = (cache_map c)(k \<mapsto> next_ptr c)"
    and hp: "heap ?c = (heap c)(next_ptr c := \<lparr>key = k, entry = CacheEntry_new v t\<rparr>)"
    and np: "next_ptr ?c = Suc (next_ptr c)"
    and sz: "current_size ?c = current_size c + 1"
    and cp: "capacity ?c = capacity c"
    by (simp_all add: insert_loaded_def Let_def)
  show "distinct (order ?c)" using linked_distinct [OF assms(1)] fr by (simp add: ord)
  show "cache_map ?c k' = Some q \<Longrightarrow> q \<in> set (order ?c) \<and> key (heap ?c q) = k'" for k' q
    using linked_map_in [OF assms(1), of k' q] linked_map_key [OF assms(1), of k' q] fr
    by (auto simp: ord mp hp split: if_splits)
  show "q \<in> set (order ?c) \<Longrightarrow> q < next_ptr ?c" for q
    using linked_fresh [OF assms(1), of q] by (auto simp: ord np less_Suc_eq)
  show "unat (current_size ?c) = length (order ?c)"
    using unat_succ_below [of "current_size c" "capacity c"] assms(2) linked_size [OF assms(1)]
    by (simp add: ord sz)
  show "length (order ?c) \<le> unat (capacity ?c)" using assms(2) by (simp add: ord cp)
  show "capacity ?c \<noteq> 0" using linked_cap [OF assms(1)] by (simp add: cp)
qed

lemma linked_load_entries:
  assumes "load_entries i count clk f c = Inr (b, c')"
    and "linked c" and "length (order c) = unat i"
  shows "linked c'"
  using assms
proof (induction i count clk f c rule: load_entries.induct)
  case (1 i count clk f c)
  show ?case
  proof (cases "i < count \<and> ucast i < capacity c")
    case False
    have "load_entries i count clk f c = Inr (True, c)"
      by (subst load_entries.simps) (simp only: False if_False)
    then show ?thesis using "1.prems" by simp
  next
    case True
    then have lt: "i < count" and lc: "unat i < unat (capacity c)"
      by (simp_all add: ucast_less_cap)
    obtain ks f1 where r1: "read_u32 f = (ks, f1)" by (cases "read_u32 f")
    show ?thesis
    proof (cases ks)
      case None
      then have "load_entries i count clk f c = Inl indeterminate_value"
        using True r1 by (subst load_entries.simps) simp
      then show ?thesis using "1.prems"(1) by simp
    next
      case (Some key_size)
      obtain k f2 where r2: "istream_read (unat key_size) (replicate (unat key_size) (CHR 0x00)) f1 = (k, f2)"
        by (cases "istream_read (unat key_size) (replicate (unat key_size) (CHR 0x00)) f1")
      obtain vs f3 where r3: "read_u32 f2 = (vs, f3)" by (cases "read_u32 f2")
      show ?thesis
      proof (cases vs)
        case None
        then have "load_entries i count clk f c = Inl indeterminate_value"
          using True r1 Some r2 r3 by (subst load_entries.simps) simp
        then show ?thesis using "1.prems"(1) by simp
      next
        case vsome: (Some value_size)
        obtain v f4 where r4: "istream_read (unat value_size) (replicate (unat value_size) (CHR 0x00)) f3 = (v, f4)"
          by (cases "istream_read (unat value_size) (replicate (unat value_size) (CHR 0x00)) f3")
        let ?c = "insert_loaded k v (clk (unat i)) c"
        have step: "load_entries i count clk f c = load_entries (i + 1) count clk f4 ?c"
          using True r1 Some r2 r3 vsome r4 by (subst load_entries.simps) simp
        have lk: "linked ?c"
          using "1.prems"(2) lc "1.prems"(3) by (intro linked_insert_loaded) simp_all
        have len: "length (order ?c) = unat (i + 1)"
          using "1.prems"(3) unat_succ32 [OF lt] by (simp add: insert_loaded_def Let_def)
        show ?thesis
          using "1.IH" [OF True r1 [symmetric] Some r2 [symmetric] r3 [symmetric] vsome r4 [symmetric] _ lk len]
            "1.prems"(1) step by simp
      qed
    qed
  qed
qed

lemma linked_load_snapshot:
  assumes "load_snapshot file clk c = Inr (b, c')" and "linked c"
  shows "linked c'"
proof (cases "file")
  case None
  then show ?thesis using assms by (simp add: load_snapshot_def)
next
  case (Some bytes)
  let ?c0 = "LRUCache_clear c"
  have l0: "linked ?c0" using indexed_linked [OF indexed_clear [OF assms(2)]] .
  obtain ver f1 where r1: "read_u32 \<lparr>rest = bytes, good = True\<rparr> = (ver, f1)"
    by (cases "read_u32 \<lparr>rest = bytes, good = True\<rparr>")
  obtain cnt f2 where r2: "read_u32 f1 = (cnt, f2)" by (cases "read_u32 f1")
  have ld: "load_snapshot file clk c =
        (case ver of None \<Rightarrow> Inl indeterminate_value
         | Some v \<Rightarrow> if v \<noteq> 1 then Inr (False, ?c0)
                     else (case cnt of None \<Rightarrow> Inl indeterminate_value
                           | Some n \<Rightarrow> load_entries 0 n clk f2 ?c0))"
    unfolding LRUCache_clear_def by (simp add: load_snapshot_def Some r1 r2 Let_def)
  show ?thesis
  proof (cases ver)
    case None
    then show ?thesis using assms(1) ld by simp
  next
    case v: (Some v)
    show ?thesis
    proof (cases "v = 1")
      case False
      then show ?thesis using assms(1) ld v l0 by auto
    next
      case True
      show ?thesis
      proof (cases cnt)
        case None
        then show ?thesis using assms(1) ld v True by simp
      next
        case (Some n)
        then have "load_entries 0 n clk f2 ?c0 = Inr (b, c')"
          using assms(1) ld v True by simp
        then show ?thesis using l0 by (rule linked_load_entries) (simp add: LRUCache_clear_def)
      qed
    qed
  qed
qed

lemma linked_apply:
  assumes "linked c" and "apply_operation x c = Inr c'"
  shows "linked c'"
proof (cases x)
  case (Get k now)
  then show ?thesis using assms linked_get [OF assms(1), of k "[]" now] by auto
next
  case (Put k v now)
  then show ?thesis using assms linked_put [OF assms(1), of k v now] by auto
next
  case (Remove k)
  then show ?thesis using assms linked_remove [OF assms(1), of k] by auto
next
  case Clear
  then show ?thesis using assms indexed_linked [OF indexed_clear [OF assms(1)]] by auto
next
  case (Load src clk)
  then obtain ok where "load_snapshot src clk c = Inr (ok, c')"
    using assms(2) by (auto split: sum.splits)
  then show ?thesis using assms(1) by (rule linked_load_snapshot)
qed

lemma linked_run:
  assumes "linked c" and "run xs c = Inr c'"
  shows "linked c'"
  using assms
proof (induction xs arbitrary: c)
  case Nil
  then show ?case by simp
next
  case (Cons x xs)
  then obtain c1 where a: "apply_operation x c = Inr c1" and r: "run xs c1 = Inr c'"
    by (auto split: sum.splits)
  have "linked c1" using Cons.prems(1) a by (rule linked_apply)
  then show ?case using r by (rule Cons.IH)
qed

lemma indexed_apply:
  assumes "indexed c" and "apply_operation x c = Inr c'" and "\<not> is_load x"
  shows "indexed c'"
proof (cases x)
  case (Get k now)
  then show ?thesis using assms indexed_get [OF assms(1), of k "[]" now] by auto
next
  case (Put k v now)
  then show ?thesis using assms indexed_put [OF assms(1), of k v now] by auto
next
  case (Remove k)
  then show ?thesis using assms indexed_remove [OF assms(1), of k] by auto
next
  case Clear
  then show ?thesis using assms indexed_clear [OF indexed_linked [OF assms(1)]] by auto
next
  case (Load src clk)
  then show ?thesis using assms(3) by simp
qed

lemma indexed_run:
  assumes "indexed c" and "run xs c = Inr c'" and "\<not> list_ex is_load xs"
  shows "indexed c' \<and> capacity c' = capacity c"
  using assms
proof (induction xs arbitrary: c)
  case Nil
  then show ?case by simp
next
  case (Cons x xs)
  obtain c1 where a: "apply_operation x c = Inr c1" and r: "run xs c1 = Inr c'"
    using Cons.prems(2) by (auto split: sum.splits)
  have nl: "\<not> is_load x" and nls: "\<not> list_ex is_load xs" using Cons.prems(3) by simp_all
  have i1: "indexed c1" using Cons.prems(1) a nl by (rule indexed_apply)
  have c1: "capacity c1 = capacity c"
    using a nl by (cases x) (auto simp: LRUCache_get_def LRUCache_remove_def LRUCache_clear_def
        move_to_front_def remove_node_def Let_def split: option.splits)
  show ?case using Cons.IH [OF i1 r nls] c1 by simp
qed

lemma invariant_without_load:
  assumes "LRUCache_new cap = Inr c0" and "run xs c0 = Inr c" and "\<not> list_ex is_load xs"
  shows "card (dom (cache_map c)) = length (order c) \<and>
         length (order c) = unat (current_size c) \<and>
         current_size c \<le> capacity c \<and> capacity c = cap"
proof -
  have i0: "indexed c0" using assms(1) by (rule indexed_new)
  have cp: "capacity c0 = cap" using assms(1) by (auto simp: LRUCache_new_def split: if_splits)
  have i: "indexed c" "capacity c = capacity c0"
    using indexed_run [OF i0 assms(2,3)] by simp_all
  note lk = indexed_linked [OF i(1)]
  show ?thesis
    using indexed_card [OF i(1)] linked_size [OF lk] linked_bound [OF lk] i(2) cp
    by (simp add: word_le_nat_alt)
qed

lemma list_and_size_with_load:
  assumes "LRUCache_new cap = Inr c0" and "run xs c0 = Inr c"
  shows "length (order c) = unat (current_size c) \<and> current_size c \<le> capacity c"
proof -
  have "linked c0" using indexed_linked [OF indexed_new [OF assms(1)]] .
  then have lk: "linked c" using assms(2) by (rule linked_run)
  show ?thesis
    using linked_size [OF lk] linked_bound [OF lk] by (simp add: word_le_nat_alt)
qed

subsection \<open>What a load leaves in the engine\<close>

text \<open>
  The engine after the loop has inserted the records \<open>rs\<close>, no more than the capacity,
  into the cleared engine: the list holds them newest first, \<open>get\<close> finds exactly
  their keys, each with the value of the last record of that key
  (\<open>map_of (rev rs)\<close>), the state is \<open>linked\<close>, and \<open>indexed\<close> when no key is
  repeated, where the insertions are those of \<open>put\<close>.
\<close>

lemma indexed_clear_capacity: "capacity c \<noteq> 0 \<Longrightarrow> indexed (LRUCache_clear c)"
  by (auto simp: LRUCache_clear_def indexed_def linked_def)

lemma linked_insert_all:
  assumes "linked c" and "length (order c) + length rs \<le> unat (capacity c)"
  shows "linked (insert_all j rs clk c)"
  using assms
proof (induction rs arbitrary: j c)
  case Nil
  then show ?case by simp
next
  case (Cons r rs)
  let ?c = "insert_loaded (fst r) (snd r) (clk j) c"
  have lk: "linked ?c" using Cons.prems by (intro linked_insert_loaded) simp_all
  have len: "length (order ?c) + length rs \<le> unat (capacity ?c)"
    using Cons.prems(2) by (simp add: insert_loaded_def Let_def)
  show ?case using Cons.IH [OF lk len] by simp
qed

lemma insert_loaded_is_put:
  assumes "linked c" and "cache_map c k = None" and "length (order c) < unat (capacity c)"
  shows "insert_loaded k v t c = LRUCache_put k v t c"
  unfolding put_absent_room [OF assms] by (simp add: insert_loaded_def Let_def)

lemma indexed_insert_all:
  assumes "indexed c" and "length (order c) + length rs \<le> unat (capacity c)"
    and "distinct (map fst rs)" and "fst ` set rs \<inter> dom (cache_map c) = {}"
  shows "indexed (insert_all j rs clk c)"
  using assms
proof (induction rs arbitrary: j c)
  case Nil
  then show ?case by simp
next
  case (Cons r rs)
  let ?c = "insert_loaded (fst r) (snd r) (clk j) c"
  have ab: "cache_map c (fst r) = None" using Cons.prems(4) by auto
  have room: "length (order c) < unat (capacity c)" using Cons.prems(2) by simp
  have pt: "?c = LRUCache_put (fst r) (snd r) (clk j) c"
    using indexed_linked [OF Cons.prems(1)] ab room by (rule insert_loaded_is_put)
  have ix: "indexed ?c" unfolding pt using Cons.prems(1) by (rule indexed_put)
  have len: "length (order ?c) + length rs \<le> unat (capacity ?c)"
    using Cons.prems(2) by (simp add: insert_loaded_def Let_def)
  have ds: "distinct (map fst rs)" using Cons.prems(3) by simp
  have dm: "dom (cache_map ?c) = insert (fst r) (dom (cache_map c))"
    by (simp add: insert_loaded_def Let_def)
  have dj: "fst ` set rs \<inter> dom (cache_map ?c) = {}"
    using Cons.prems(3,4) unfolding dm by auto
  show ?case using Cons.IH [OF ix len ds dj] by simp
qed

lemma value_insert_all:
  assumes "\<forall>k p. cache_map c k = Some p \<longrightarrow> p < next_ptr c"
  shows "map_option (\<lambda>p. value_str (entry (heap (insert_all j rs clk c) p)))
           (cache_map (insert_all j rs clk c) q) =
         (case map_of (rev rs) q of
            Some w \<Rightarrow> Some w
          | None \<Rightarrow> map_option (\<lambda>p. value_str (entry (heap c p))) (cache_map c q))"
  using assms
proof (induction rs arbitrary: j c)
  case Nil
  then show ?case by simp
next
  case (Cons r rs)
  let ?c = "insert_loaded (fst r) (snd r) (clk j) c"
  have fr: "\<forall>k p. cache_map ?c k = Some p \<longrightarrow> p < next_ptr ?c"
    using Cons.prems by (auto simp: insert_loaded_def Let_def less_Suc_eq)
  have one: "map_option (\<lambda>p. value_str (entry (heap ?c p))) (cache_map ?c q) =
             (if q = fst r then Some (snd r)
              else map_option (\<lambda>p. value_str (entry (heap c p))) (cache_map c q))"
  proof (cases "q = fst r")
    case True
    then show ?thesis by (simp add: insert_loaded_def Let_def CacheEntry_new_def)
  next
    case False
    show ?thesis
    proof (cases "cache_map c q")
      case None
      then show ?thesis using False by (simp add: insert_loaded_def Let_def)
    next
      case (Some p)
      then have "p \<noteq> next_ptr c" using Cons.prems by auto
      then show ?thesis using False Some by (simp add: insert_loaded_def Let_def)
    qed
  qed
  have mo: "map_of (rev (r # rs)) q =
            (case map_of (rev rs) q of Some w \<Rightarrow> Some w
             | None \<Rightarrow> if q = fst r then Some (snd r) else None)"
    by (cases r) (simp add: map_of_append map_add_def split: option.splits)
  have ih: "map_option (\<lambda>p. value_str (entry (heap (insert_all j (r # rs) clk c) p)))
              (cache_map (insert_all j (r # rs) clk c) q) =
            (case map_of (rev rs) q of
               Some w \<Rightarrow> Some w
             | None \<Rightarrow> if q = fst r then Some (snd r)
                       else map_option (\<lambda>p. value_str (entry (heap c p))) (cache_map c q))"
    using Cons.IH [OF fr, of "Suc j" ] by (simp only: insert_all.simps one)
  show ?case
    unfolding ih mo by (cases "map_of (rev rs) q") simp_all
qed

lemma get_by_value:
  "(case map_option (\<lambda>p. value_str (entry (heap c p))) (cache_map c q) of
      None \<Rightarrow> LRUCache_get q val now c = (False, val, c)
    | Some w \<Rightarrow> fst (LRUCache_get q val now c) = True \<and> fst (snd (LRUCache_get q val now c)) = w)"
  by (cases "cache_map c q") (simp_all add: LRUCache_get_def move_to_front_def Let_def)

lemma loaded_state:
  fixes rs :: "(string \<times> string) list" and clk :: "nat \<Rightarrow> time_point"
  assumes "length rs \<le> unat (capacity c)"
  defines "X \<equiv> insert_all 0 rs clk (LRUCache_clear c)"
  shows "entries X = rev rs"
    and "unat (current_size X) = length rs"
    and "case map_of (rev rs) q of
           None \<Rightarrow> LRUCache_get q val now X = (False, val, X)
         | Some w \<Rightarrow> fst (LRUCache_get q val now X) = True \<and> fst (snd (LRUCache_get q val now X)) = w"
    and "capacity c \<noteq> 0 \<Longrightarrow> linked X"
    and "capacity c \<noteq> 0 \<Longrightarrow> distinct (map fst rs) \<Longrightarrow> indexed X"
proof -
  let ?c0 = "LRUCache_clear c"
  have c0: "order ?c0 = []" "cache_map ?c0 = Map.empty" "capacity ?c0 = capacity c"
    "current_size ?c0 = 0"
    by (simp_all add: LRUCache_clear_def)
  show "entries X = rev rs"
    unfolding X_def by (subst entries_insert_all) (simp_all add: c0 entries_def)
  have "current_size X = of_nat (length rs)"
    unfolding X_def using insert_all_shape [of 0 rs clk ?c0] by (simp add: c0)
  moreover have "length rs < 2 ^ LENGTH(64)"
    using assms(1) unsigned_less [of "capacity c", where ?'a = nat] by simp
  ultimately show "unat (current_size X) = length rs" by (simp add: unat_of_nat)
  have "map_option (\<lambda>p. value_str (entry (heap X p))) (cache_map X q) =
        (case map_of (rev rs) q of Some w \<Rightarrow> Some w | None \<Rightarrow> None)"
    unfolding X_def by (subst value_insert_all) (simp_all add: c0 split: option.splits)
  then show "case map_of (rev rs) q of
           None \<Rightarrow> LRUCache_get q val now X = (False, val, X)
         | Some w \<Rightarrow> fst (LRUCache_get q val now X) = True \<and> fst (snd (LRUCache_get q val now X)) = w"
    using get_by_value [where c = X and q = q and val = val and now = now] by (simp split: option.splits)
  show "linked X" if "capacity c \<noteq> 0"
    unfolding X_def using assms(1)
    by (intro linked_insert_all indexed_linked [OF indexed_clear_capacity [OF that]])
      (simp add: c0)
  show "indexed X" if "capacity c \<noteq> 0" "distinct (map fst rs)"
    unfolding X_def using assms(1) that(2)
    by (intro indexed_insert_all indexed_clear_capacity [OF that(1)]) (simp_all add: c0)
qed

text \<open>
  Claim C7. For every well-formed snapshot stream (version 1, then \<open>count\<close>, then
  \<open>count\<close> records with keys and values shorter than \<open>2^32\<close> bytes, then anything)
  whose \<open>count\<close> exceeds the capacity \<open>C\<close> of the loading engine, \<open>load_snapshot\<close>
  returns \<open>true\<close> and the engine holds exactly the first \<open>C\<close> records, inserted in
  stream order, each at the head: the recency list from head to tail is these records
  in reverse and \<open>current_size\<close> is \<open>C\<close>; a \<open>get\<close> of any key \<open>q\<close> finds it exactly
  when one of the first \<open>C\<close> records has it, and returns the value of the last of
  them; the index leads only to nodes of the list (\<open>linked\<close>, for \<open>C > 0\<close>), and
  with pairwise different keys the index and the list agree (\<open>indexed\<close>). The other
  records are not read, so no key of theirs alone is found.
\<close>

theorem load_count_over_capacity:
  assumes "\<forall>r \<in> set rs. fits32 r" and "length rs = unat count"
    and "unat (capacity c) < unat count"
  shows "load_snapshot (Some (enc32 1 @ enc32 count @ write_records rs @ trailing)) clk c =
           Inr (True, insert_all 0 (take (unat (capacity c)) rs) clk (LRUCache_clear c)) \<and>
         entries (insert_all 0 (take (unat (capacity c)) rs) clk (LRUCache_clear c)) =
           rev (take (unat (capacity c)) rs) \<and>
         current_size (insert_all 0 (take (unat (capacity c)) rs) clk (LRUCache_clear c)) =
           capacity c \<and>
         (case map_of (rev (take (unat (capacity c)) rs)) q of
            None \<Rightarrow>
              LRUCache_get q val now
                (insert_all 0 (take (unat (capacity c)) rs) clk (LRUCache_clear c)) =
              (False, val, insert_all 0 (take (unat (capacity c)) rs) clk (LRUCache_clear c))
          | Some w \<Rightarrow>
              fst (LRUCache_get q val now
                (insert_all 0 (take (unat (capacity c)) rs) clk (LRUCache_clear c))) = True \<and>
              fst (snd (LRUCache_get q val now
                (insert_all 0 (take (unat (capacity c)) rs) clk (LRUCache_clear c)))) = w) \<and>
         (capacity c \<noteq> 0 \<longrightarrow>
            linked (insert_all 0 (take (unat (capacity c)) rs) clk (LRUCache_clear c))) \<and>
         (capacity c \<noteq> 0 \<longrightarrow> distinct (map fst (take (unat (capacity c)) rs)) \<longrightarrow>
            indexed (insert_all 0 (take (unat (capacity c)) rs) clk (LRUCache_clear c)))"
proof -
  let ?C = "unat (capacity c)"
  let ?c0 = "LRUCache_clear c"
  let ?X = "insert_all 0 (take ?C rs) clk ?c0"
  have cap: "capacity ?c0 = capacity c" by (simp add: LRUCache_clear_def)
  have split: "write_records rs @ trailing =
               write_records (take ?C rs) @ (write_records (drop ?C rs) @ trailing)"
    unfolding write_records_def
    by (simp only: append_assoc [symmetric] concat_append [symmetric] map_append [symmetric]
        append_take_drop_id)
  have ft: "\<forall>r \<in> set (take ?C rs). fits32 r"
    using assms(1) by (auto dest: in_set_takeD)
  have len: "unat (0 :: uint32_t) + length (take ?C rs) = min (unat count) (unat (capacity ?c0))"
    using assms(2,3) by (simp add: cap min_def)
  have le: "length (take ?C rs) \<le> ?C" by simp
  have "load_snapshot (Some (enc32 1 @ enc32 count @ write_records rs @ trailing)) clk c =
        load_entries 0 count clk \<lparr>rest = write_records rs @ trailing, good = True\<rparr> ?c0"
    by (rule load_header)
  also have "\<dots> = Inr (True, insert_all (unat (0 :: uint32_t)) (take ?C rs) clk ?c0)"
    using ft len by (intro load_all [where tail = "write_records (drop ?C rs) @ trailing"])
      (simp_all add: split)
  finally have 1: "load_snapshot (Some (enc32 1 @ enc32 count @ write_records rs @ trailing)) clk c =
                   Inr (True, ?X)"
    by simp
  have 2: "entries ?X = rev (take ?C rs)" using le by (rule loaded_state(1))
  have "unat (current_size ?X) = ?C"
    using loaded_state(2) [OF le, of clk] assms(2,3) by simp
  then have 3: "current_size ?X = capacity c" by (simp add: word_unat_eq_iff)
  note 4 = loaded_state(3) [OF le, of q val now clk]
  have 5: "capacity c \<noteq> 0 \<longrightarrow> linked ?X" using loaded_state(4) [OF le] by blast
  have 6: "capacity c \<noteq> 0 \<longrightarrow> distinct (map fst (take ?C rs)) \<longrightarrow> indexed ?X"
    using loaded_state(5) [OF le] by blast
  show ?thesis using 1 2 3 4 5 6 by blast
qed

theorem load_count_over_capacity_witness:
  "list_all fits32 [(''a'', ''1''), (''b'', ''2'')] \<and>
   length [(''a'', ''1''), (''b'', ''2'')] = unat (2 :: uint32_t) \<and>
   unat (capacity (projr (LRUCache_new 1))) < unat (2 :: uint32_t) \<and>
   load_snapshot (Some (enc32 1 @ enc32 2 @ write_records [(''a'', ''1''), (''b'', ''2'')] @ []))
     (\<lambda>i. 0) (projr (LRUCache_new 1)) =
     Inr (True, insert_all 0 [(''a'', ''1'')] (\<lambda>i. 0) (LRUCache_clear (projr (LRUCache_new 1)))) \<and>
   entries (insert_all 0 [(''a'', ''1'')] (\<lambda>i. 0) (LRUCache_clear (projr (LRUCache_new 1)))) =
     [(''a'', ''1'')] \<and>
   fst (LRUCache_get ''a'' [] 9
     (insert_all 0 [(''a'', ''1'')] (\<lambda>i. 0) (LRUCache_clear (projr (LRUCache_new 1))))) = True \<and>
   fst (snd (LRUCache_get ''a'' [] 9
     (insert_all 0 [(''a'', ''1'')] (\<lambda>i. 0) (LRUCache_clear (projr (LRUCache_new 1)))))) = ''1'' \<and>
   fst (LRUCache_get ''b'' [] 9
     (insert_all 0 [(''a'', ''1'')] (\<lambda>i. 0) (LRUCache_clear (projr (LRUCache_new 1))))) = False \<and>
   indexed (insert_all 0 [(''a'', ''1'')] (\<lambda>i. 0) (LRUCache_clear (projr (LRUCache_new 1))))"
proof -
  have h1: "\<forall>r \<in> set [(''a'', ''1''), (''b'', ''2'')]. fits32 r"
    by (simp add: fits32_def)
  have h2: "length [(''a'', ''1''), (''b'', ''2'')] = unat (2 :: uint32_t)"
    by simp
  have h3: "unat (capacity (projr (LRUCache_new 1))) < unat (2 :: uint32_t)"
    by (simp add: LRUCache_new_def)
  have c: "unat (capacity (projr (LRUCache_new 1))) = 1" "capacity (projr (LRUCache_new 1)) \<noteq> 0"
    by (simp_all add: LRUCache_new_def)
  show ?thesis
    using h1 h2 h3
      load_count_over_capacity [OF h1 h2 h3, where trailing = "[]" and clk = "\<lambda>i. 0"
        and q = "''a''" and val = "[]" and now = 9]
      load_count_over_capacity [OF h1 h2 h3, where trailing = "[]" and clk = "\<lambda>i. 0"
        and q = "''b''" and val = "[]" and now = 9]
    by (simp add: c list_all_iff)
qed

text \<open>
  Claim C1, as amended. For every snapshot stream with a version 1 header that ends
  inside the value bytes of the last record the loop reads (record number
  \<open>min count capacity\<close>), \<open>load_snapshot\<close> returns \<open>true\<close>. The records read before it
  are inserted, and so is the cut record, its value filled up with NUL bytes to the
  length the size field announced: the recency list holds them newest first,
  \<open>current_size\<close> is their number, and a \<open>get\<close> of any key \<open>q\<close> finds it exactly when
  one of them has it, with the value of the last of them. The state is valid:
  \<open>linked\<close>, and \<open>indexed\<close> when no key is repeated.
\<close>

theorem load_truncated_last_value:
  assumes "\<forall>r \<in> set rs. fits32 r" and "fits32 (k, v)" and "m < length v"
    and "Suc (length rs) = min (unat count) (unat (capacity c))"
  shows "load_snapshot
           (Some (enc32 1 @ enc32 count @ write_records rs @
                  enc32 (of_nat (length k)) @ k @ enc32 (of_nat (length v)) @ take m v)) clk c =
           Inr (True, insert_all 0 (rs @ [(k, take m v @ replicate (length v - m) (CHR 0x00))]) clk
                        (LRUCache_clear c)) \<and>
         entries (insert_all 0 (rs @ [(k, take m v @ replicate (length v - m) (CHR 0x00))]) clk
                    (LRUCache_clear c)) =
           (k, take m v @ replicate (length v - m) (CHR 0x00)) # rev rs \<and>
         unat (current_size
                 (insert_all 0 (rs @ [(k, take m v @ replicate (length v - m) (CHR 0x00))]) clk
                    (LRUCache_clear c))) = Suc (length rs) \<and>
         (case map_of ((k, take m v @ replicate (length v - m) (CHR 0x00)) # rev rs) q of
            None \<Rightarrow>
              LRUCache_get q val now
                (insert_all 0 (rs @ [(k, take m v @ replicate (length v - m) (CHR 0x00))]) clk
                   (LRUCache_clear c)) =
              (False, val,
               insert_all 0 (rs @ [(k, take m v @ replicate (length v - m) (CHR 0x00))]) clk
                 (LRUCache_clear c))
          | Some w \<Rightarrow>
              fst (LRUCache_get q val now
                (insert_all 0 (rs @ [(k, take m v @ replicate (length v - m) (CHR 0x00))]) clk
                   (LRUCache_clear c))) = True \<and>
              fst (snd (LRUCache_get q val now
                (insert_all 0 (rs @ [(k, take m v @ replicate (length v - m) (CHR 0x00))]) clk
                   (LRUCache_clear c)))) = w) \<and>
         linked (insert_all 0 (rs @ [(k, take m v @ replicate (length v - m) (CHR 0x00))]) clk
                   (LRUCache_clear c)) \<and>
         (distinct (k # map fst rs) \<longrightarrow>
            indexed (insert_all 0 (rs @ [(k, take m v @ replicate (length v - m) (CHR 0x00))]) clk
                       (LRUCache_clear c)))"
proof -
  let ?c0 = "LRUCache_clear c"
  let ?pad = "take m v @ replicate (length v - m) (CHR 0x00)"
  let ?last = "enc32 (of_nat (length k)) @ k @ enc32 (of_nat (length v)) @ take m v"
  let ?n = "of_nat (length rs) :: uint32_t"
  let ?c1 = "insert_all 0 rs clk ?c0"
  let ?X = "insert_all 0 (rs @ [(k, ?pad)]) clk ?c0"
  have cap: "capacity ?c0 = capacity c" by (simp add: LRUCache_clear_def)
  have a: "unat (0 :: uint32_t) + length rs \<le> unat count"
    and b: "unat (0 :: uint32_t) + length rs \<le> unat (capacity ?c0)"
    using assms(4) by (simp_all add: cap)
  have un: "unat ?n = length rs" using unat_add_of_nat32 [OF a] by simp
  have lt: "?n < count" using assms(4) un by (simp add: word_less_nat_alt)
  have lc: "unat ?n < unat (capacity ?c1)" using assms(4) un by (simp add: cap)
  have su: "unat (?n + 1) = Suc (length rs)" using unat_succ32 [OF lt] un by simp
  have app: "insert_all j (xs @ [r]) clk d =
             insert_loaded (fst r) (snd r) (clk (j + length xs)) (insert_all j xs clk d)"
    for j xs r d
    by (induction xs arbitrary: j d) simp_all
  have "load_snapshot (Some (enc32 1 @ enc32 count @ write_records rs @ ?last)) clk c =
        load_entries 0 count clk \<lparr>rest = write_records rs @ ?last, good = True\<rparr> ?c0"
    by (rule load_header)
  also have "\<dots> = load_entries (0 + ?n) count clk
                     (\<lparr>rest = write_records rs @ ?last, good = True\<rparr>\<lparr>rest := ?last\<rparr>)
                     (insert_all (unat (0 :: uint32_t)) rs clk ?c0)"
    using assms(1) a b by (intro load_prefix) simp_all
  also have "\<dots> = load_entries ?n count clk \<lparr>rest = ?last, good = True\<rparr> ?c1" by simp
  also have "\<dots> = load_entries (?n + 1) count clk
                     (\<lparr>rest = ?last, good = True\<rparr>\<lparr>rest := [], good := False\<rparr>)
                     (insert_loaded k ?pad (clk (unat ?n)) ?c1)"
    using lt lc assms(2,3) by (intro load_truncated_value) simp_all
  also have "\<dots> = Inr (True, insert_loaded k ?pad (clk (unat ?n)) ?c1)"
    using assms(4) by (intro load_stop) (simp add: su cap)
  also have "insert_loaded k ?pad (clk (unat ?n)) ?c1 = ?X"
    by (simp add: app un)
  finally have 1: "load_snapshot (Some (enc32 1 @ enc32 count @ write_records rs @ ?last)) clk c =
                   Inr (True, ?X)" .
  have le: "length (rs @ [(k, ?pad)]) \<le> unat (capacity c)" using assms(4) by simp
  have ne: "capacity c \<noteq> 0" using assms(4) by (auto simp: unat_eq_0)
  have 2: "entries ?X = (k, ?pad) # rev rs" using loaded_state(1) [OF le, of clk] by simp
  have 3: "unat (current_size ?X) = Suc (length rs)" using loaded_state(2) [OF le, of clk] by simp
  have 4: "case map_of ((k, ?pad) # rev rs) q of
             None \<Rightarrow> LRUCache_get q val now ?X = (False, val, ?X)
           | Some w \<Rightarrow> fst (LRUCache_get q val now ?X) = True \<and>
                        fst (snd (LRUCache_get q val now ?X)) = w"
    using loaded_state(3) [OF le, of q val now clk] by (simp only: rev_append rev.simps append.simps)
  have 5: "linked ?X" using le ne by (rule loaded_state(4))
  have 6: "distinct (k # map fst rs) \<longrightarrow> indexed ?X"
    using loaded_state(5) [OF le ne, of clk] by auto
  show ?thesis using 1 2 3 4 5 6 by blast
qed

theorem load_truncated_last_value_witness:
  "list_all fits32 [(''a'', ''1'')] \<and> fits32 (''b'', ''xyz'') \<and> 1 < length ''xyz'' \<and>
   Suc (length [(''a'', ''1'')]) = min (unat (2 :: uint32_t)) (unat (capacity (projr (LRUCache_new 5)))) \<and>
   fst (projr (load_snapshot
      (Some (enc32 1 @ enc32 2 @ write_records [(''a'', ''1'')] @
             enc32 (of_nat (length ''b'')) @ ''b'' @ enc32 (of_nat (length ''xyz'')) @ take 1 ''xyz''))
      (\<lambda>i. 0) (projr (LRUCache_new 5)))) = True \<and>
   entries (snd (projr (load_snapshot
      (Some (enc32 1 @ enc32 2 @ write_records [(''a'', ''1'')] @
             enc32 (of_nat (length ''b'')) @ ''b'' @ enc32 (of_nat (length ''xyz'')) @ take 1 ''xyz''))
      (\<lambda>i. 0) (projr (LRUCache_new 5))))) =
     [(''b'', [CHR ''x'', CHR 0x00, CHR 0x00]), (''a'', ''1'')] \<and>
   fst (snd (LRUCache_get ''b'' [] 9 (snd (projr (load_snapshot
      (Some (enc32 1 @ enc32 2 @ write_records [(''a'', ''1'')] @
             enc32 (of_nat (length ''b'')) @ ''b'' @ enc32 (of_nat (length ''xyz'')) @ take 1 ''xyz''))
      (\<lambda>i. 0) (projr (LRUCache_new 5))))))) = [CHR ''x'', CHR 0x00, CHR 0x00] \<and>
   indexed (snd (projr (load_snapshot
      (Some (enc32 1 @ enc32 2 @ write_records [(''a'', ''1'')] @
             enc32 (of_nat (length ''b'')) @ ''b'' @ enc32 (of_nat (length ''xyz'')) @ take 1 ''xyz''))
      (\<lambda>i. 0) (projr (LRUCache_new 5)))))"
proof -
  have h1: "\<forall>r \<in> set [(''a'', ''1'')]. fits32 r" by (simp add: fits32_def)
  have h2: "fits32 (''b'', ''xyz'')" by (simp add: fits32_def)
  have h3: "1 < length ''xyz''" by simp
  have h4: "Suc (length [(''a'', ''1'')]) =
            min (unat (2 :: uint32_t)) (unat (capacity (projr (LRUCache_new 5))))"
    by (simp add: LRUCache_new_def)
  show ?thesis
    using h1 h2 h3 h4
      load_truncated_last_value [OF h1 h2 h3 h4, where clk = "\<lambda>i. 0" and q = "''b''"
        and val = "[]" and now = 9]
    by (simp add: numeral_2_eq_2 list_all_iff)
qed

text \<open>
  Claim C1, as stated, fails: the stream below has a version 1 header, \<open>count = 1\<close>
  and one record with key \<open>a\<close> whose value is announced as two bytes long but ends
  after one. \<open>load_snapshot\<close> returns \<open>true\<close>.
\<close>

theorem truncated_snapshot_returns_true:
  "load_snapshot
     (Some [CHR 0x01, CHR 0x00, CHR 0x00, CHR 0x00,
            CHR 0x01, CHR 0x00, CHR 0x00, CHR 0x00,
            CHR 0x01, CHR 0x00, CHR 0x00, CHR 0x00, CHR ''a'',
            CHR 0x02, CHR 0x00, CHR 0x00, CHR 0x00, CHR ''x''])
     id (projr (LRUCache_new 2)) =
   Inr (True, insert_loaded ''a'' [CHR ''x'', CHR 0x00] 0 (projr (LRUCache_new 2)))"
  by (simp add: load_snapshot_def read_u32_def dec32_def istream_read_def load_entries.simps
      LRUCache_new_def insert_loaded_def Let_def)

subsection \<open>The two lock phases of a lookup\<close>

text \<open>
  Run one after the other with nothing in between, the two phases are \<open>get\<close>.
\<close>

lemma two_phases_are_get:
  "get_lookup k now c = (None, c1) \<Longrightarrow> LRUCache_get k val now c = (False, val, c1)"
  "get_lookup k now c = (Some it, c1) \<Longrightarrow> get_promote it c1 = Inr (LRUCache_get k val now c)"
  by (auto simp: get_lookup_def get_promote_def LRUCache_get_def move_to_front_def Let_def
      split: option.splits)

lemma promote_after_remove:
  assumes "get_lookup k now c = (Some it, c1)"
  shows "get_promote it (snd (LRUCache_remove k c1)) = Inl invalidated_iterator"
  using assms
  by (auto simp: get_lookup_def get_promote_def LRUCache_remove_def remove_node_def Let_def
      split: option.splits)

text \<open>
  Claim C9 at an interleaving. On an engine of capacity 2 that holds the key \<open>a\<close>, a
  \<open>get\<close> of \<open>a\<close> runs its first phase and finds the node 0; between the two lock
  acquisitions another thread removes \<open>a\<close>; then the second phase runs. It does not
  look the key up again: it goes through the iterator of the erased element, which is
  the outcome \<open>invalidated_iterator\<close>, not a miss that is tolerated. And the splice it
  makes through that handle, \<open>move_to_front\<close> of node 0, links the removed node into
  the recency list again, while the index stays empty and \<open>current_size\<close> stays 0.
\<close>

theorem get_promotes_removed_node:
  "fst (get_lookup ''a'' 1 (LRUCache_put ''a'' ''1'' 0 (projr (LRUCache_new 2)))) = Some (''a'', 0) \<and>
   fst (LRUCache_remove ''a''
          (snd (get_lookup ''a'' 1 (LRUCache_put ''a'' ''1'' 0 (projr (LRUCache_new 2)))))) = True \<and>
   cache_map (snd (LRUCache_remove ''a''
          (snd (get_lookup ''a'' 1 (LRUCache_put ''a'' ''1'' 0 (projr (LRUCache_new 2))))))) ''a'' =
     None \<and>
   get_promote (''a'', 0)
     (snd (LRUCache_remove ''a''
          (snd (get_lookup ''a'' 1 (LRUCache_put ''a'' ''1'' 0 (projr (LRUCache_new 2))))))) =
     Inl invalidated_iterator \<and>
   order (move_to_front 0
     (snd (LRUCache_remove ''a''
          (snd (get_lookup ''a'' 1 (LRUCache_put ''a'' ''1'' 0 (projr (LRUCache_new 2)))))))) = [0] \<and>
   cache_map (move_to_front 0
     (snd (LRUCache_remove ''a''
          (snd (get_lookup ''a'' 1 (LRUCache_put ''a'' ''1'' 0 (projr (LRUCache_new 2)))))))) =
     Map.empty \<and>
   current_size (move_to_front 0
     (snd (LRUCache_remove ''a''
          (snd (get_lookup ''a'' 1 (LRUCache_put ''a'' ''1'' 0 (projr (LRUCache_new 2)))))))) = 0"
  by (simp add: get_lookup_def get_promote_def LRUCache_remove_def LRUCache_put_def
      LRUCache_new_def move_to_front_def remove_node_def Let_def)

subsection \<open>A lookup that misses\<close>

text \<open>
  Claim C10. For every key absent from the index, \<open>get\<close> returns \<open>found = false\<close> and
  the engine state it leaves is the state it was given: no node is moved or created,
  \<open>current_size\<close> and the index are as before, and no entry's \<open>last_accessed\<close> or
  \<open>access_count\<close> has changed. The out-parameter keeps its value.
\<close>

theorem get_absent_unchanged:
  "cache_map c k = None \<Longrightarrow> LRUCache_get k val now c = (False, val, c)"
  by (simp add: LRUCache_get_def)

theorem get_absent_unchanged_witness:
  "cache_map (LRUCache_put ''a'' ''1'' 7 (projr (LRUCache_new 2))) ''b'' = None \<and>
   LRUCache_get ''b'' ''old'' 9 (LRUCache_put ''a'' ''1'' 7 (projr (LRUCache_new 2))) =
     (False, ''old'', LRUCache_put ''a'' ''1'' 7 (projr (LRUCache_new 2)))"
proof -
  have h: "cache_map (LRUCache_put ''a'' ''1'' 7 (projr (LRUCache_new 2))) ''b'' = None"
    by (simp add: LRUCache_put_def LRUCache_new_def Let_def)
  show ?thesis using h get_absent_unchanged [OF h, of "''old''" 9] by simp
qed

end
